theory Spec2Isabelle
  imports Complex_Main "HOL-Library.Sublist"
begin

section \<open>Python values shared by the modules\<close>

text \<open>
  Exceptions are values: every \<^verbatim>\<open>raise\<close> of the source and every failure of an external
  service is an \<open>Inl\<close> of this type. \<open>ServiceError\<close> stands for whatever exception an
  external client (embedding service, generation service, document parser) raises.
\<close>

datatype exn =
    IndexError
  | KeyError
  | ZeroDivisionError
  | UnicodeDecodeError
  | UnexpectedResponse
  | ServiceError string

text \<open>
  Python strings are sequences of code points and are modelled as \<^typ>\<open>string\<close>. The two
  character classes of the regular-expression engine, \<^verbatim>\<open>\s\<close> (the same class that
  \<^verbatim>\<open>str.strip\<close> removes) and \<^verbatim>\<open>\w\<close>, are tables of the Python runtime, not of the
  repository; they are a parameter of every function that uses them.
\<close>

record char_tables =
  is_space :: "char \<Rightarrow> bool"
  is_word :: "char \<Rightarrow> bool"

text \<open>The two classes on ASCII text, used to run the functions on concrete inputs.\<close>

definition ascii_space :: "char \<Rightarrow> bool" where
  "ascii_space c =
     (c \<in> set [CHR '' '', CHR 0x09, CHR 0x0A, CHR 0x0B, CHR 0x0C, CHR 0x0D,
               CHR 0x1C, CHR 0x1D, CHR 0x1E, CHR 0x1F])"

definition ascii_word :: "char \<Rightarrow> bool" where
  "ascii_word c =
     (let n = (of_char c :: nat)
      in (48 \<le> n \<and> n \<le> 57) \<or> (65 \<le> n \<and> n \<le> 90) \<or> n = 95 \<or> (97 \<le> n \<and> n \<le> 122))"

definition ascii_tables :: char_tables where
  "ascii_tables = \<lparr> is_space = ascii_space, is_word = ascii_word \<rparr>"

section \<open>document\_processor.py\<close>

subsection \<open>clean\_text\<close>

text \<open>\<^verbatim>\<open>re.sub(r'\s+', ' ', text)\<close>: every maximal whitespace run becomes one space.\<close>

function collapse_whitespace :: "(char \<Rightarrow> bool) \<Rightarrow> string \<Rightarrow> string" where
  "collapse_whitespace ws [] = []"
| "collapse_whitespace ws (c # cs) =
     (if ws c then CHR '' '' # collapse_whitespace ws (dropWhile ws cs)
      else c # collapse_whitespace ws cs)"
  by pat_completeness auto
termination
  by (relation "measure (\<lambda>(ws, s). length s)")
     (auto simp: less_Suc_eq_le length_dropWhile_le)

text \<open>The character class \<^verbatim>\<open>[\w\s\.\,\!\?\-\:\;\(\)]\<close> whose complement is deleted.\<close>

definition allowed :: "char_tables \<Rightarrow> char \<Rightarrow> bool" where
  "allowed T c = (is_word T c \<or> is_space T c \<or> c \<in> set ''.,!?-:;()'')"

text \<open>\<^verbatim>\<open>str.strip()\<close>: whitespace is removed from both ends.\<close>

definition strip :: "(char \<Rightarrow> bool) \<Rightarrow> string \<Rightarrow> string" where
  "strip ws s = rev (dropWhile ws (rev (dropWhile ws s)))"

definition clean_text :: "char_tables \<Rightarrow> string \<Rightarrow> string" where
  "clean_text T text =
     (let text1 = collapse_whitespace (is_space T) text;
          text2 = filter (allowed T) text1
      in strip (is_space T) text2)"

text \<open>
  "Every run of whitespace is reduced to a single space", said without the loop: each
  character is looked at together with the character before it (none before the first);
  a whitespace character that follows a whitespace character is dropped, every other
  whitespace character becomes a space, and the other characters stay.
\<close>

definition one_space_per_run :: "(char \<Rightarrow> bool) \<Rightarrow> string \<Rightarrow> string" where
  "one_space_per_run ws s =
     map (\<lambda>(before, c). if ws c then CHR '' '' else c)
       (filter (\<lambda>(before, c). \<not> (ws c \<and> (case before of None \<Rightarrow> False | Some b \<Rightarrow> ws b)))
          (zip (None # map Some s) s))"

text \<open>Two neighbouring characters of a string are both whitespace.\<close>

fun adjacent_whitespace :: "(char \<Rightarrow> bool) \<Rightarrow> string \<Rightarrow> bool" where
  "adjacent_whitespace ws (a # b # cs) = ((ws a \<and> ws b) \<or> adjacent_whitespace ws (b # cs))"
| "adjacent_whitespace ws cs = False"

subsection \<open>chunk\_by\_sentences\<close>

text \<open>
  \<^verbatim>\<open>re.split(r'(?<=[.!?])\s+', text)\<close>: the text is cut at every maximal whitespace run
  that directly follows one of \<^verbatim>\<open>.\<close>, \<^verbatim>\<open>!\<close>, \<^verbatim>\<open>?\<close>; the run is dropped.
  \<open>piece\<close> is the part of the current sentence read so far. A text without such a run,
  the empty text included, comes back as a single piece.
\<close>

function re_split :: "(char \<Rightarrow> bool) \<Rightarrow> string \<Rightarrow> string \<Rightarrow> string list" where
  "re_split ws piece [] = [piece]"
| "re_split ws piece (c # cs) =
     (if c \<in> set ''.!?'' \<and> cs \<noteq> [] \<and> ws (hd cs)
      then (piece @ [c]) # re_split ws [] (dropWhile ws cs)
      else re_split ws (piece @ [c]) cs)"
  by pat_completeness auto
termination
  by (relation "measure (\<lambda>(ws, piece, s). length s)")
     (auto simp: less_Suc_eq_le length_dropWhile_le)

text \<open>\<^verbatim>\<open>' '.join(xs)\<close>.\<close>

fun join :: "string list \<Rightarrow> string" where
  "join [] = []"
| "join [x] = x"
| "join (x # y # ys) = x @ '' '' @ join (y # ys)"

text \<open>
  The inner loop over \<^verbatim>\<open>reversed(current_chunk)\<close>: sentences are taken from the end
  while the running length stays within \<open>overlap\<close>; the first one that does not fit
  ends the loop. The result is \<^verbatim>\<open>(overlap_sentences, overlap_length)\<close>.
\<close>

fun overlap_scan :: "int \<Rightarrow> string list \<Rightarrow> string list \<Rightarrow> int \<Rightarrow> string list \<times> int" where
  "overlap_scan overlap [] overlap_sentences overlap_length =
     (overlap_sentences, overlap_length)"
| "overlap_scan overlap (s # rest) overlap_sentences overlap_length =
     (if overlap_length + int (length s) \<le> overlap
      then overlap_scan overlap rest (s # overlap_sentences) (overlap_length + int (length s))
      else (overlap_sentences, overlap_length))"

text \<open>
  The loop over the sentences, with the three variables it updates (\<open>chunks\<close>,
  \<open>current_chunk\<close>, \<open>current_length\<close>), and the flush of the last chunk after it.
\<close>

fun chunk_loop ::
  "int \<Rightarrow> int \<Rightarrow> string list \<Rightarrow> string list \<Rightarrow> string list \<Rightarrow> int \<Rightarrow> string list" where
  "chunk_loop chunk_size overlap [] chunks current_chunk current_length =
     (if current_chunk \<noteq> [] then chunks @ [join current_chunk] else chunks)"
| "chunk_loop chunk_size overlap (sentence # sentences) chunks current_chunk current_length =
     (let sentence_length = int (length sentence)
      in if current_length + sentence_length > chunk_size \<and> current_chunk \<noteq> []
         then (case overlap_scan overlap (rev current_chunk) [] 0 of
                 (overlap_sentences, overlap_length) \<Rightarrow>
                   chunk_loop chunk_size overlap sentences
                     (chunks @ [join current_chunk])
                     (overlap_sentences @ [sentence])
                     (overlap_length + sentence_length))
         else chunk_loop chunk_size overlap sentences chunks
                (current_chunk @ [sentence]) (current_length + sentence_length))"

definition chunk_by_sentences :: "char_tables \<Rightarrow> string \<Rightarrow> int \<Rightarrow> int \<Rightarrow> string list" where
  "chunk_by_sentences T text chunk_size overlap =
     chunk_loop chunk_size overlap (re_split (is_space T) [] text) [] [] 0"

text \<open>
  The sentence-level view of the same loop: \<open>group_loop\<close> is \<open>chunk_loop\<close> with each closed
  chunk kept as its list of sentences instead of the joined string. It is used to state
  which sentences two consecutive chunks share.
\<close>

fun group_loop ::
  "int \<Rightarrow> int \<Rightarrow> string list \<Rightarrow> string list list \<Rightarrow> string list \<Rightarrow> int \<Rightarrow> string list list" where
  "group_loop chunk_size overlap [] groups current_chunk current_length =
     (if current_chunk \<noteq> [] then groups @ [current_chunk] else groups)"
| "group_loop chunk_size overlap (sentence # sentences) groups current_chunk current_length =
     (let sentence_length = int (length sentence)
      in if current_length + sentence_length > chunk_size \<and> current_chunk \<noteq> []
         then (case overlap_scan overlap (rev current_chunk) [] 0 of
                 (overlap_sentences, overlap_length) \<Rightarrow>
                   group_loop chunk_size overlap sentences
                     (groups @ [current_chunk])
                     (overlap_sentences @ [sentence])
                     (overlap_length + sentence_length))
         else group_loop chunk_size overlap sentences groups
                (current_chunk @ [sentence]) (current_length + sentence_length))"

definition sentence_groups :: "char_tables \<Rightarrow> string \<Rightarrow> int \<Rightarrow> int \<Rightarrow> string list list" where
  "sentence_groups T text chunk_size overlap =
     group_loop chunk_size overlap (re_split (is_space T) [] text) [] [] 0"

text \<open>The sentences that seed the next chunk when \<open>current_chunk\<close> is closed.\<close>

definition overlap_sentences :: "int \<Rightarrow> string list \<Rightarrow> string list" where
  "overlap_sentences overlap current_chunk = fst (overlap_scan overlap (rev current_chunk) [] 0)"

definition sentences_length :: "string list \<Rightarrow> int" where
  "sentences_length ss = sum_list (map (\<lambda>s. int (length s)) ss)"

text \<open>
  What two consecutive chunks share, \<open>earlier\<close> and \<open>later\<close> given by their sentences: the
  later chunk starts with the overlap sentences of the earlier one and goes on with at
  least one more sentence; joined, these sentences end the earlier chunk's text and
  start the later one's; there are such sentences exactly when the last sentence of the
  earlier chunk is no longer than \<open>overlap\<close>; their lengths add up to at most \<open>overlap\<close>
  (a negative \<open>overlap\<close> counts as 0), and one more sentence would exceed it; joined,
  they are as long as that sum plus one space between neighbours.
\<close>

definition overlap_link :: "int \<Rightarrow> string list \<Rightarrow> string list \<Rightarrow> bool" where
  "overlap_link overlap earlier later =
     (let r = overlap_sentences overlap earlier
      in earlier \<noteq> []
         \<and> (\<exists>rest. rest \<noteq> [] \<and> later = r @ rest)
         \<and> (\<exists>before. earlier = before @ r
               \<and> (before = [] \<or> sentences_length (last before # r) > overlap))
         \<and> suffix (join r) (join earlier)
         \<and> prefix (join r) (join later)
         \<and> (r \<noteq> [] \<longleftrightarrow> int (length (last earlier)) \<le> overlap)
         \<and> sentences_length r \<le> max 0 overlap
         \<and> int (length (join r)) = sentences_length r + max 0 (int (length r) - 1))"

text \<open>
  The property as the specification words it: some non-empty suffix of the earlier chunk
  is a prefix of the later chunk and is no longer than \<open>overlap\<close>.
\<close>

definition shares_overlap :: "int \<Rightarrow> string \<Rightarrow> string \<Rightarrow> bool" where
  "shares_overlap overlap earlier later =
     (\<exists>r\<in>set (suffixes earlier). r \<noteq> [] \<and> prefix r later \<and> int (length r) \<le> overlap)"

section \<open>embedder.py\<close>

subsection \<open>The embedding service\<close>

text \<open>
  An embedding is a list of floats; no claim depends on float arithmetic, so the
  components are reals. \<^verbatim>\<open>openai.Embedding.create(input=batch, model=...)\<close> is an external
  service, a parameter of the model: a call gets the service's state and the input texts
  and gives either the exception it raises or the embeddings of the response
  (\<^verbatim>\<open>[item.embedding for item in response.data]\<close>), and the next state. The state lets
  the service answer the same request differently at different times. The API key is
  part of the service.
\<close>

type_synonym embedding = "real list"

type_synonym 's embedding_service = "'s \<Rightarrow> string list \<Rightarrow> (exn + embedding list) \<times> 's"

text \<open>\<^verbatim>\<open>[0.0] * 1536\<close>, the vector stored for a text that could not be embedded.\<close>

definition zero_vector :: embedding where
  "zero_vector = replicate 1536 0"

subsection \<open>get\_embedding\<close>

text \<open>
  One request for one text; the result is \<^verbatim>\<open>response.data[0].embedding\<close>, an
  \<^verbatim>\<open>IndexError\<close> when the response holds no item.
\<close>

definition get_embedding :: "'s embedding_service \<Rightarrow> 's \<Rightarrow> string \<Rightarrow> (exn + embedding) \<times> 's" where
  "get_embedding create s text =
     (case create s [text] of
        (Inl e, s') \<Rightarrow> (Inl e, s')
      | (Inr [], s') \<Rightarrow> (Inl IndexError, s')
      | (Inr (embedding # _), s') \<Rightarrow> (Inr embedding, s'))"

subsection \<open>get\_embeddings\_batch\<close>

text \<open>
  The fallback of one batch: \<^verbatim>\<open>for text in batch\<close>, one request per text, and the zero
  vector for a text whose request raises.
\<close>

fun embed_each ::
  "'s embedding_service \<Rightarrow> 's \<Rightarrow> string list \<Rightarrow> embedding list \<Rightarrow> embedding list \<times> 's" where
  "embed_each create s [] all_embeddings = (all_embeddings, s)"
| "embed_each create s (text # batch) all_embeddings =
     (case get_embedding create s text of
        (Inr single_embedding, s') \<Rightarrow>
          embed_each create s' batch (all_embeddings @ [single_embedding])
      | (Inl e2, s') \<Rightarrow>
          embed_each create s' batch (all_embeddings @ [zero_vector]))"

text \<open>
  The loop \<^verbatim>\<open>for batch_idx in range(0, len(texts), batch_size)\<close> for a positive step;
  \<open>batch\<close> is the slice \<^verbatim>\<open>texts[batch_idx:batch_idx + batch_size]\<close>. A batch whose request
  succeeds contributes whatever the response holds; a batch whose request raises is
  embedded text by text.
\<close>

function batch_loop ::
  "'s embedding_service \<Rightarrow> nat \<Rightarrow> string list \<Rightarrow> nat \<Rightarrow> 's \<Rightarrow> embedding list
     \<Rightarrow> embedding list \<times> 's" where
  "batch_loop create batch_size texts batch_idx s all_embeddings =
     (if batch_size = 0 \<or> length texts \<le> batch_idx then (all_embeddings, s)
      else (let batch = take batch_size (drop batch_idx texts)
            in case create s batch of
                 (Inr batch_embeddings, s') \<Rightarrow>
                   batch_loop create batch_size texts (batch_idx + batch_size) s'
                     (all_embeddings @ batch_embeddings)
               | (Inl e, s') \<Rightarrow>
                   (case embed_each create s' batch all_embeddings of
                      (all_embeddings', s'') \<Rightarrow>
                        batch_loop create batch_size texts (batch_idx + batch_size) s''
                          all_embeddings')))"
  by pat_completeness auto
termination
  by (relation "measure (\<lambda>(create, batch_size, texts, batch_idx, s, all_embeddings).
                           length texts - batch_idx)")
     auto

text \<open>
  \<^verbatim>\<open>total_batches = (len(texts) + batch_size - 1) // batch_size\<close> raises for a batch size
  of 0 before the loop starts; a negative step makes the range empty.
\<close>

definition get_embeddings_batch ::
  "'s embedding_service \<Rightarrow> 's \<Rightarrow> string list \<Rightarrow> int \<Rightarrow> (exn + embedding list) \<times> 's" where
  "get_embeddings_batch create s texts batch_size =
     (if batch_size = 0 then (Inl ZeroDivisionError, s)
      else if batch_size < 0 then (Inr [], s)
      else (case batch_loop create (nat batch_size) texts 0 s [] of
              (all_embeddings, s') \<Rightarrow> (Inr all_embeddings, s')))"

subsection \<open>The requests of a run\<close>

text \<open>
  The requests \<^verbatim>\<open>get_embeddings_batch\<close> sends for the text at position \<open>i\<close>, with the state
  the service is in when they are sent. The batches before the one that holds the text
  are the batches of the first \<open>k * batch_size\<close> texts, so the state in which batch
  \<open>k\<close> is requested is the state the loop leaves on those texts. \<open>batch_request\<close> is the
  request for the batch that holds the text: what it returns and the state after it.
  \<open>item_request\<close> is the single request for the text in the fallback of that batch, sent
  after the single requests for the texts before it in the batch.
\<close>

definition state_before_batch ::
  "'s embedding_service \<Rightarrow> nat \<Rightarrow> string list \<Rightarrow> 's \<Rightarrow> nat \<Rightarrow> 's" where
  "state_before_batch create batch_size texts s k =
     snd (batch_loop create batch_size (take (k * batch_size) texts) 0 s [])"

definition batch_of :: "nat \<Rightarrow> string list \<Rightarrow> nat \<Rightarrow> string list" where
  "batch_of batch_size texts i = take batch_size (drop (i div batch_size * batch_size) texts)"

definition batch_request ::
  "'s embedding_service \<Rightarrow> nat \<Rightarrow> string list \<Rightarrow> 's \<Rightarrow> nat \<Rightarrow> (exn + embedding list) \<times> 's" where
  "batch_request create batch_size texts s i =
     create (state_before_batch create batch_size texts s (i div batch_size))
       (batch_of batch_size texts i)"

definition item_request ::
  "'s embedding_service \<Rightarrow> nat \<Rightarrow> string list \<Rightarrow> 's \<Rightarrow> nat \<Rightarrow> (exn + embedding) \<times> 's" where
  "item_request create batch_size texts s i =
     get_embedding create
       (snd (embed_each create (snd (batch_request create batch_size texts s i))
               (take (i mod batch_size) (batch_of batch_size texts i)) []))
       (texts ! i)"

subsection \<open>Services for concrete runs\<close>

text \<open>
  Three stand-ins for the embedding service. \<open>mock_service\<close> counts its requests, rejects
  every request that holds the text \<^verbatim>\<open>bad\<close> and otherwise embeds a text as the
  one-component vector of its length. \<open>failing_service\<close> raises on every request.
  \<open>zero_service\<close> answers every text with the all-zero vector of 1536 components.
\<close>

definition mock_service :: "nat embedding_service" where
  "mock_service s batch =
     (if ''bad'' \<in> set batch then (Inl (ServiceError ''rejected''), Suc s)
      else (Inr (map (\<lambda>t. [real (length t)]) batch), Suc s))"

definition failing_service :: "unit embedding_service" where
  "failing_service s batch = (Inl (ServiceError ''unavailable''), s)"

definition zero_service :: "unit embedding_service" where
  "zero_service s batch = (Inr (map (\<lambda>t. zero_vector) batch), s)"

text \<open>
  \<open>flaky_service\<close> is out of order for its first two requests and works from the third
  on: its state is the number of requests it has got.
\<close>

definition flaky_service :: "nat embedding_service" where
  "flaky_service s batch =
     (if s < 2 then (Inl (ServiceError ''unavailable''), Suc s)
      else (Inr (map (\<lambda>t. [real (length t)]) batch), Suc s))"

text \<open>
  \<open>replay_service\<close> never raises: its state is a list of vectors, and it answers a request
  for \<open>n\<close> texts with the next \<open>n\<close> vectors of the list.
\<close>

definition replay_service :: "embedding list embedding_service" where
  "replay_service vectors batch =
     (Inr (take (length batch) vectors), drop (length batch) vectors)"

section \<open>generator.py\<close>

subsection \<open>The generation service\<close>

text \<open>
  \<^verbatim>\<open>openai.ChatCompletion.create\<close> is an external service, a parameter of the model. It is
  taken as deterministic: what it answers depends on the prompt only. Of a whole response
  the code reads \<^verbatim>\<open>response["choices"][0]["message"]["content"]\<close> and the three token
  counts of \<^verbatim>\<open>response["usage"]\<close>, so a response is the message contents of its choices
  and its usage entry, if it has one.
\<close>

record chat_response =
  choices :: "string list"
  usage :: "(nat \<times> nat \<times> nat) option"

text \<open>
  A chunk of a streamed response is the list of its choices. Of a choice the code reads
  \<^verbatim>\<open>.get("delta", {}).get("content")\<close>: a choice is its delta if it has one, and a delta
  is its content if it has one that is not null.
\<close>

type_synonym stream_chunk = "string option option list"

text \<open>
  A streamed response is the chunks it delivers and the exception that ends the
  iteration, if one does.
\<close>

record generation_service =
  complete :: "string \<Rightarrow> exn + chat_response"
  stream :: "string \<Rightarrow> exn + stream_chunk list \<times> exn option"

subsection \<open>generate\_code and generate\_code\_stream\<close>

text \<open>The prompt both functions build from \<open>context\<close> and \<open>query\<close>.\<close>

definition generation_prompt :: "string \<Rightarrow> string \<Rightarrow> string" where
  "generation_prompt context_text query =
     ''Reference:'' @ [CHR 0x0A] @ context_text @ [CHR 0x0A, CHR 0x0A]
     @ ''Instruction:'' @ [CHR 0x0A] @ query @ [CHR 0x0A, CHR 0x0A]
     @ ''Generate code as per the reference and instruction.''"

text \<open>
  The response's first choice is the result; the log line after it formats the token
  counts and raises a \<^verbatim>\<open>KeyError\<close> for a response without usage.
\<close>

definition generate_code :: "generation_service \<Rightarrow> string \<Rightarrow> string \<Rightarrow> exn + string" where
  "generate_code svc context_text query =
     (case complete svc (generation_prompt context_text query) of
        Inl e \<Rightarrow> Inl e
      | Inr response \<Rightarrow>
          (case choices response of
             [] \<Rightarrow> Inl IndexError
           | code # _ \<Rightarrow>
               (case usage response of None \<Rightarrow> Inl KeyError | Some _ \<Rightarrow> Inr code)))"

text \<open>
  The loop \<^verbatim>\<open>for chunk in response\<close> of the generator: a chunk whose first choice has a
  non-empty content yields that content; a chunk without choices raises an
  \<^verbatim>\<open>IndexError\<close>. The result is the fragments yielded and the exception that ended the
  generator, if any.
\<close>

fun stream_fragments :: "stream_chunk list \<Rightarrow> string list \<times> exn option" where
  "stream_fragments [] = ([], None)"
| "stream_fragments (chunk # response) =
     (case chunk of
        [] \<Rightarrow> ([], Some IndexError)
      | choice # _ \<Rightarrow>
          (case choice of
             Some (Some content) \<Rightarrow>
               (if content \<noteq> []
                then (case stream_fragments response of
                        (fragments, e) \<Rightarrow> (content # fragments, e))
                else stream_fragments response)
           | _ \<Rightarrow> stream_fragments response))"

definition generate_code_stream ::
  "generation_service \<Rightarrow> string \<Rightarrow> string \<Rightarrow> string list \<times> exn option" where
  "generate_code_stream svc context_text query =
     (case stream svc (generation_prompt context_text query) of
        Inl e \<Rightarrow> ([], Some e)
      | Inr (response, ended) \<Rightarrow>
          (case stream_fragments response of
             (fragments, Some e) \<Rightarrow> (fragments, Some e)
           | (fragments, None) \<Rightarrow> (fragments, ended)))"

subsection \<open>The generation step of generate\_stream (backend/main.py)\<close>

text \<open>
  The events of the streaming endpoint, by their \<^verbatim>\<open>type\<close> field; the JSON framing of an
  event is left out.
\<close>

datatype event =
    Status string
  | Sources "string list"
  | Code string
  | Done string
  | Error exn

text \<open>
  Step 6 of \<^verbatim>\<open>event_generator\<close>: the status event, one \<^verbatim>\<open>code\<close> event per fragment of
  \<^verbatim>\<open>generate_code_stream(context, strict_prompt, ...)\<close>, then \<^verbatim>\<open>done\<close>; an exception
  is caught and reported as the last event.
\<close>

definition stream_code_events :: "generation_service \<Rightarrow> string \<Rightarrow> string \<Rightarrow> event list" where
  "stream_code_events svc context_text strict_prompt =
     (case generate_code_stream svc context_text strict_prompt of
        (fragments, ended) \<Rightarrow>
          Status ''Generating code with GPT-4...''
          # map Code fragments
          @ [case ended of None \<Rightarrow> Done ''Code generation completed!'' | Some e \<Rightarrow> Error e])"

text \<open>The text a consumer rebuilds from a stream: its \<^verbatim>\<open>code\<close> fragments, in order.\<close>

fun code_fragments :: "event list \<Rightarrow> string list" where
  "code_fragments [] = []"
| "code_fragments (Code fragment # events) = fragment # code_fragments events"
| "code_fragments (_ # events) = code_fragments events"

text \<open>
  The text a chunk of the service's stream carries: the content of its first choice,
  nothing when that is absent or null.
\<close>

definition chunk_text :: "stream_chunk \<Rightarrow> string" where
  "chunk_text chunk =
     (case chunk of (Some (Some content) # _) \<Rightarrow> content | _ \<Rightarrow> [])"

text \<open>
  A stub that answers the prompt with one text in both modes: whole, with usage, and
  streamed as the given pieces, each in a chunk of its own after a first chunk that
  carries a role but no content, with a null content in the last chunk.
\<close>

definition stub_service :: "string list \<Rightarrow> generation_service" where
  "stub_service pieces =
     \<lparr> complete = (\<lambda>prompt. Inr \<lparr> choices = [concat pieces], usage = Some (0, 0, 0) \<rparr>),
       stream = (\<lambda>prompt. Inr ([Some None] # map (\<lambda>p. [Some (Some p)]) pieces @ [[Some None]],
                               None)) \<rparr>"

section \<open>qdrant\_utils.py\<close>

subsection \<open>The vector store\<close>

text \<open>
  Payload values are Python strings, integers and \<^verbatim>\<open>None\<close>; a payload is a dictionary,
  kept as the list of its entries in insertion order.
\<close>

datatype pyval = PyNone | PyStr string | PyInt int

type_synonym payload = "(string \<times> pyval) list"

text \<open>\<^verbatim>\<open>PointStruct(id=..., vector=..., payload=...)\<close>.\<close>

record point_struct =
  point_id :: nat
  point_vector :: embedding
  point_payload :: payload

text \<open>
  The Qdrant server is external. Its state is modelled by what the repository relies on:
  named collections, each with the vector size it was created with and its records by
  id. \<open>upsert\<close> stores each point under its id, replacing the record the id had.
  Requests that name a missing collection, that create one that exists, or that bring a
  vector of the wrong size are answered with an error, which the client raises as
  \<^verbatim>\<open>UnexpectedResponse\<close>.
\<close>

record collection =
  vector_size :: nat
  points :: "nat \<rightharpoonup> embedding \<times> payload"

type_synonym qdrant = "string \<rightharpoonup> collection"

definition client_get_collection :: "qdrant \<Rightarrow> string \<Rightarrow> exn + collection" where
  "client_get_collection st collection_name =
     (case st collection_name of None \<Rightarrow> Inl UnexpectedResponse | Some c \<Rightarrow> Inr c)"

definition client_delete_collection :: "qdrant \<Rightarrow> string \<Rightarrow> (exn + unit) \<times> qdrant" where
  "client_delete_collection st collection_name = (Inr (), st(collection_name := None))"

definition client_create_collection :: "qdrant \<Rightarrow> string \<Rightarrow> nat \<Rightarrow> (exn + unit) \<times> qdrant" where
  "client_create_collection st collection_name dimension =
     (case st collection_name of
        Some c \<Rightarrow> (Inl UnexpectedResponse, st)
      | None \<Rightarrow> (Inr (), st(collection_name \<mapsto> \<lparr> vector_size = dimension, points = Map.empty \<rparr>)))"

definition client_upsert ::
  "qdrant \<Rightarrow> string \<Rightarrow> point_struct list \<Rightarrow> (exn + unit) \<times> qdrant" where
  "client_upsert st collection_name batch_points =
     (case st collection_name of
        None \<Rightarrow> (Inl UnexpectedResponse, st)
      | Some c \<Rightarrow>
          if list_all (\<lambda>p. length (point_vector p) = vector_size c) batch_points
          then (Inr (),
                st(collection_name \<mapsto>
                     c\<lparr> points := points c
                          ++ map_of (map (\<lambda>p. (point_id p, (point_vector p, point_payload p)))
                                       (rev batch_points)) \<rparr>))
          else (Inl UnexpectedResponse, st))"

text \<open>
  A hit of \<^verbatim>\<open>client.search\<close>: the payload of a record and its similarity score. The
  ranking itself (cosine similarity, the \<open>limit\<close> best records) is the server's and is a
  parameter \<open>rank\<close> of the search functions.
\<close>

record scored_point =
  hit_payload :: payload
  hit_score :: real

type_synonym ranking = "collection \<Rightarrow> embedding \<Rightarrow> int \<Rightarrow> exn + scored_point list"

definition client_search ::
  "ranking \<Rightarrow> qdrant \<Rightarrow> string \<Rightarrow> embedding \<Rightarrow> int \<Rightarrow> exn + scored_point list" where
  "client_search rank st collection_name query_vector limit =
     (case st collection_name of
        None \<Rightarrow> Inl UnexpectedResponse
      | Some c \<Rightarrow> rank c query_vector limit)"

subsection \<open>collection\_exists and create\_collection\<close>

text \<open>Only \<^verbatim>\<open>UnexpectedResponse\<close> is caught; any other exception goes to the caller.\<close>

definition collection_exists :: "qdrant \<Rightarrow> string \<Rightarrow> exn + bool" where
  "collection_exists st collection_name =
     (case client_get_collection st collection_name of
        Inr c \<Rightarrow> Inr True
      | Inl UnexpectedResponse \<Rightarrow> Inr False
      | Inl e \<Rightarrow> Inl e)"

definition create_collection :: "qdrant \<Rightarrow> string \<Rightarrow> nat \<Rightarrow> (exn + unit) \<times> qdrant" where
  "create_collection st collection_name dimension =
     (case collection_exists st collection_name of
        Inl e \<Rightarrow> (Inl e, st)
      | Inr True \<Rightarrow>
          (case client_delete_collection st collection_name of
             (Inl e, st') \<Rightarrow> (Inl e, st')
           | (Inr u, st') \<Rightarrow> client_create_collection st' collection_name dimension)
      | Inr False \<Rightarrow> client_create_collection st collection_name dimension)"

subsection \<open>upload\_documents\_with\_metadata\<close>

text \<open>
  A chunk object as \<^verbatim>\<open>create_chunk_with_metadata\<close> (document\_processor.py) builds it:
  the text and the metadata dictionary, whose \<^verbatim>\<open>page_number\<close> entry is optional.
\<close>

record chunk_metadata =
  meta_source :: string
  meta_chunk_index :: nat
  meta_length :: nat
  meta_page_number :: "nat option"

record chunk_obj =
  chunk_text_of :: string
  chunk_metadata_of :: chunk_metadata

definition create_chunk_with_metadata ::
  "string \<Rightarrow> string \<Rightarrow> nat \<Rightarrow> nat option \<Rightarrow> chunk_obj" where
  "create_chunk_with_metadata chunk source_file chunk_index page_number =
     \<lparr> chunk_text_of = chunk,
       chunk_metadata_of = \<lparr> meta_source = source_file, meta_chunk_index = chunk_index,
                             meta_length = length chunk, meta_page_number = page_number \<rparr> \<rparr>"

text \<open>
  The point built for index \<open>i\<close>: the id is the index itself, and the payload has the four
  entries the code copies (the page number is not among them).
\<close>

definition make_point :: "chunk_obj list \<Rightarrow> embedding list \<Rightarrow> nat \<Rightarrow> point_struct" where
  "make_point chunk_objs embeddings i =
     \<lparr> point_id = i,
       point_vector = embeddings ! i,
       point_payload =
         [(''text'', PyStr (chunk_text_of (chunk_objs ! i))),
          (''source'', PyStr (meta_source (chunk_metadata_of (chunk_objs ! i)))),
          (''chunk_index'', PyInt (int (meta_chunk_index (chunk_metadata_of (chunk_objs ! i))))),
          (''length'', PyInt (int (meta_length (chunk_metadata_of (chunk_objs ! i)))))] \<rparr>"

text \<open>
  The list comprehension over \<^verbatim>\<open>range(start_idx, end_idx)\<close>; \<^verbatim>\<open>embeddings[i]\<close> raises an
  \<^verbatim>\<open>IndexError\<close> when there are fewer embeddings than chunk objects (\<open>end_idx\<close> never
  exceeds the number of chunk objects).
\<close>

fun make_points :: "chunk_obj list \<Rightarrow> embedding list \<Rightarrow> nat list \<Rightarrow> exn + point_struct list" where
  "make_points chunk_objs embeddings [] = Inr []"
| "make_points chunk_objs embeddings (i # indices) =
     (if i < length embeddings \<and> i < length chunk_objs
      then (case make_points chunk_objs embeddings indices of
              Inl e \<Rightarrow> Inl e
            | Inr batch_points \<Rightarrow> Inr (make_point chunk_objs embeddings i # batch_points))
      else Inl IndexError)"

text \<open>
  The loop \<^verbatim>\<open>for batch_num in range(total_batches)\<close>, over the batch numbers still to
  do. An exception ends it; the batches stored before stay stored.
\<close>

fun upload_batches ::
  "qdrant \<Rightarrow> string \<Rightarrow> chunk_obj list \<Rightarrow> embedding list \<Rightarrow> nat list \<Rightarrow> (exn + unit) \<times> qdrant" where
  "upload_batches st collection_name chunk_objs embeddings [] = (Inr (), st)"
| "upload_batches st collection_name chunk_objs embeddings (batch_num # batch_nums) =
     (let start_idx = batch_num * 100;
          end_idx = min ((batch_num + 1) * 100) (length chunk_objs)
      in case make_points chunk_objs embeddings [start_idx..<end_idx] of
           Inl e \<Rightarrow> (Inl e, st)
         | Inr batch_points \<Rightarrow>
             (case client_upsert st collection_name batch_points of
                (Inl e, st') \<Rightarrow> (Inl e, st')
              | (Inr u, st') \<Rightarrow>
                  upload_batches st' collection_name chunk_objs embeddings batch_nums))"

definition upload_documents_with_metadata ::
  "qdrant \<Rightarrow> string \<Rightarrow> chunk_obj list \<Rightarrow> embedding list \<Rightarrow> (exn + unit) \<times> qdrant" where
  "upload_documents_with_metadata st collection_name chunk_objs embeddings =
     (let total_docs = length chunk_objs;
          batch_size = 100;
          total_batches = (total_docs + batch_size - 1) div batch_size
      in upload_batches st collection_name chunk_objs embeddings [0..<total_batches])"

text \<open>The record stored under an id of a collection, if the collection and the record exist.\<close>

definition stored :: "qdrant \<Rightarrow> string \<Rightarrow> nat \<Rightarrow> (embedding \<times> payload) option" where
  "stored st collection_name i =
     (case st collection_name of None \<Rightarrow> None | Some c \<Rightarrow> points c i)"

text \<open>The record an upload call stores for its \<open>i\<close>-th chunk object.\<close>

definition record_of :: "chunk_obj list \<Rightarrow> embedding list \<Rightarrow> nat \<Rightarrow> embedding \<times> payload" where
  "record_of chunk_objs embeddings i =
     (point_vector (make_point chunk_objs embeddings i),
      point_payload (make_point chunk_objs embeddings i))"

subsection \<open>search\_documents\_with\_metadata and search\_documents\<close>

text \<open>
  \<^verbatim>\<open>round(r.score, 4)\<close>: to four decimals, a tie going to the even neighbour.
\<close>

definition round_half_even :: "real \<Rightarrow> int" where
  "round_half_even x =
     (let f = \<lfloor>x\<rfloor>; d = x - of_int f
      in if d < 1 / 2 then f else if 1 / 2 < d then f + 1 else if even f then f else f + 1)"

definition round4 :: "real \<Rightarrow> real" where
  "round4 x = of_int (round_half_even (x * 10000)) / 10000"

text \<open>The dictionary built for a hit, with its five keys.\<close>

record result_data =
  result_text :: pyval
  result_source :: pyval
  result_chunk_index :: pyval
  result_page_number :: pyval
  result_score :: real

text \<open>\<^verbatim>\<open>payload.get(key, default)\<close>.\<close>

definition payload_get :: "payload \<Rightarrow> string \<Rightarrow> pyval \<Rightarrow> pyval" where
  "payload_get p key default_value =
     (case map_of p key of None \<Rightarrow> default_value | Some v \<Rightarrow> v)"

text \<open>
  The loop over the hits; \<^verbatim>\<open>r.payload['text']\<close> raises a \<^verbatim>\<open>KeyError\<close> for a payload
  without that key.
\<close>

fun format_results :: "scored_point list \<Rightarrow> exn + result_data list" where
  "format_results [] = Inr []"
| "format_results (r # results) =
     (case map_of (hit_payload r) ''text'' of
        None \<Rightarrow> Inl KeyError
      | Some t \<Rightarrow>
          (case format_results results of
             Inl e \<Rightarrow> Inl e
           | Inr formatted_results \<Rightarrow>
               Inr (\<lparr> result_text = t,
                      result_source = payload_get (hit_payload r) ''source'' (PyStr ''Unknown''),
                      result_chunk_index = payload_get (hit_payload r) ''chunk_index'' (PyInt 0),
                      result_page_number = payload_get (hit_payload r) ''page_number'' PyNone,
                      result_score = round4 (hit_score r) \<rparr>
                    # formatted_results)))"

definition search_documents_with_metadata ::
  "ranking \<Rightarrow> qdrant \<Rightarrow> string \<Rightarrow> embedding \<Rightarrow> int \<Rightarrow> exn + result_data list" where
  "search_documents_with_metadata rank st collection_name query_embedding top_k =
     (case collection_exists st collection_name of
        Inl e \<Rightarrow> Inl e
      | Inr False \<Rightarrow> Inr []
      | Inr True \<Rightarrow>
          (case client_search rank st collection_name query_embedding top_k of
             Inl e \<Rightarrow> Inl e
           | Inr results \<Rightarrow> format_results results))"

definition search_documents ::
  "ranking \<Rightarrow> qdrant \<Rightarrow> string \<Rightarrow> embedding \<Rightarrow> int \<Rightarrow> exn + pyval list" where
  "search_documents rank st collection_name query_embedding top_k =
     (case search_documents_with_metadata rank st collection_name query_embedding top_k of
        Inl e \<Rightarrow> Inl e
      | Inr results_with_metadata \<Rightarrow> Inr (map result_text results_with_metadata))"

subsection \<open>A concrete store\<close>

text \<open>
  A store with one empty collection of one-component vectors, and two upload calls into
  it, one after the other: the first brings two records, the second one.
\<close>

definition one_collection :: qdrant where
  "one_collection = [''docs'' \<mapsto> \<lparr> vector_size = 1, points = Map.empty \<rparr>]"

definition first_call :: "(exn + unit) \<times> qdrant" where
  "first_call =
     upload_documents_with_metadata one_collection ''docs''
       [create_chunk_with_metadata ''A0.'' ''a.md'' 0 None,
        create_chunk_with_metadata ''A1.'' ''a.md'' 1 None]
       [[1], [2]]"

definition second_call :: "(exn + unit) \<times> qdrant" where
  "second_call =
     upload_documents_with_metadata (snd first_call) ''docs''
       [create_chunk_with_metadata ''B0.'' ''b.md'' 0 None]
       [[3]]"

section \<open>embedder.py: extract\_text\_with\_pages\<close>

text \<open>
  The decoders are external libraries (the UTF-8 codec, PyPDF2, python-docx) and come
  as parameters: each gives the exception it raises or what the code reads from its
  result, the decoded text, the text of each page of a PDF (empty for a page without
  text), the text of each paragraph of a DOCX document. \<open>PDF_SUPPORT\<close> and
  \<open>DOCX_SUPPORT\<close> say whether the two libraries could be imported.
\<close>

type_synonym bytes = "nat list"

record parsers =
  decode_utf8 :: "bytes \<Rightarrow> exn + string"
  pdf_pages :: "bytes \<Rightarrow> exn + string list"
  docx_paragraphs :: "bytes \<Rightarrow> exn + string list"
  PDF_SUPPORT :: bool
  DOCX_SUPPORT :: bool

text \<open>The loop over \<^verbatim>\<open>enumerate(pdf_reader.pages, 1)\<close>: pages without text are skipped.\<close>

fun pdf_loop ::
  "nat \<Rightarrow> string list \<Rightarrow> string \<Rightarrow> (nat \<times> string) list \<Rightarrow> string \<times> (nat \<times> string) list" where
  "pdf_loop page_num [] full_text page_texts = (full_text, page_texts)"
| "pdf_loop page_num (page_text # pages) full_text page_texts =
     (if page_text \<noteq> []
      then pdf_loop (page_num + 1) pages (full_text @ page_text @ [CHR 0x0A])
             (page_texts @ [(page_num, page_text)])
      else pdf_loop (page_num + 1) pages full_text page_texts)"

text \<open>
  \<^verbatim>\<open>len(para_text.split())\<close>: the number of maximal runs of non-whitespace characters;
  \<open>in_word\<close> says whether the character before was one of a run.
\<close>

fun count_words :: "(char \<Rightarrow> bool) \<Rightarrow> bool \<Rightarrow> string \<Rightarrow> nat" where
  "count_words ws in_word [] = 0"
| "count_words ws in_word (c # cs) =
     (if ws c then count_words ws False cs
      else (if in_word then 0 else 1) + count_words ws True cs)"

text \<open>
  The loop over the paragraphs of a DOCX document: paragraphs are gathered into a page
  until 500 words are reached; what is left after the last paragraph is a page too.
\<close>

fun docx_loop ::
  "(char \<Rightarrow> bool) \<Rightarrow> string list \<Rightarrow> string \<Rightarrow> (nat \<times> string) list \<Rightarrow> nat \<Rightarrow> string \<Rightarrow> nat
     \<Rightarrow> string \<times> (nat \<times> string) list" where
  "docx_loop ws [] full_text page_texts current_page current_page_text word_count =
     (if current_page_text \<noteq> []
      then (full_text @ current_page_text, page_texts @ [(current_page, current_page_text)])
      else (full_text, page_texts))"
| "docx_loop ws (para_text # paragraphs) full_text page_texts current_page current_page_text
       word_count =
     (if strip ws para_text \<noteq> []
      then (let current_page_text' = current_page_text @ para_text @ [CHR 0x0A];
                word_count' = word_count + count_words ws False para_text
            in if word_count' \<ge> 500
               then docx_loop ws paragraphs (full_text @ current_page_text')
                      (page_texts @ [(current_page, current_page_text')])
                      (current_page + 1) [] 0
               else docx_loop ws paragraphs full_text page_texts current_page
                      current_page_text' word_count')
      else docx_loop ws paragraphs full_text page_texts current_page current_page_text
             word_count)"

text \<open>
  A text or markdown file is decoded outside any \<^verbatim>\<open>try\<close>, so a decoding error goes to
  the caller; a PDF or DOCX file that cannot be read, and a file of any other kind, give
  the empty text and no pages.
\<close>

definition extract_text_with_pages ::
  "parsers \<Rightarrow> char_tables \<Rightarrow> bytes \<Rightarrow> string \<Rightarrow> exn + string \<times> (nat \<times> string) list" where
  "extract_text_with_pages P T file_bytes file_name =
     (if suffix ''.txt'' file_name \<or> suffix ''.md'' file_name
      then (case decode_utf8 P file_bytes of
              Inl e \<Rightarrow> Inl e
            | Inr decoded \<Rightarrow> Inr (decoded, [(1, decoded)]))
      else if suffix ''.pdf'' file_name \<and> PDF_SUPPORT P
      then (case pdf_pages P file_bytes of
              Inl e \<Rightarrow> Inr ([], [])
            | Inr pages \<Rightarrow> Inr (pdf_loop 1 pages [] []))
      else if suffix ''.docx'' file_name \<and> DOCX_SUPPORT P
      then (case docx_paragraphs P file_bytes of
              Inl e \<Rightarrow> Inr ([], [])
            | Inr paragraphs \<Rightarrow> Inr (docx_loop (is_space T) paragraphs [] [] 1 [] 0))
      else Inr ([], []))"

section \<open>backend/main.py: upload\_docs\<close>

text \<open>An uploaded file: its name and the bytes \<^verbatim>\<open>await file.read()\<close> gives.\<close>

record upload_file =
  filename :: string
  file_content :: bytes

definition COLLECTION_NAME :: string where
  "COLLECTION_NAME = ''reference_docs''"

text \<open>
  Step 2 of the pipeline, the loop over \<open>page_texts\<close>: each page is cleaned, a page that
  is empty after cleaning is skipped, and the chunks of the others are collected with
  their page number.
\<close>

fun page_chunks_of :: "char_tables \<Rightarrow> (nat \<times> string) list \<Rightarrow> (nat \<times> string) list" where
  "page_chunks_of T [] = []"
| "page_chunks_of T ((page_num, page_text) # page_texts) =
     (let cleaned_page = clean_text T page_text
      in if cleaned_page = [] then page_chunks_of T page_texts
         else map (\<lambda>chunk. (page_num, chunk)) (chunk_by_sentences T cleaned_page 500 50)
              @ page_chunks_of T page_texts)"

text \<open>The chunk objects of a file: \<^verbatim>\<open>for idx, (page_num, chunk) in enumerate(page_chunks)\<close>.\<close>

definition file_chunk_objs :: "string \<Rightarrow> (nat \<times> string) list \<Rightarrow> chunk_obj list" where
  "file_chunk_objs file_name page_chunks =
     map (\<lambda>(idx, page_num, chunk). create_chunk_with_metadata chunk file_name idx (Some page_num))
       (enumerate 0 page_chunks)"

text \<open>
  The loop over the files, with the two lists it extends. A file without text and a file
  without chunks are skipped. The progress log and the timings have no part in the
  result's status and are left out.
\<close>

fun process_files ::
  "parsers \<Rightarrow> char_tables \<Rightarrow> 's embedding_service \<Rightarrow> upload_file list \<Rightarrow> 's
     \<Rightarrow> chunk_obj list \<Rightarrow> embedding list
     \<Rightarrow> (exn + chunk_obj list \<times> embedding list) \<times> 's" where
  "process_files P T create [] s all_chunk_objs all_embeddings =
     (Inr (all_chunk_objs, all_embeddings), s)"
| "process_files P T create (file # files) s all_chunk_objs all_embeddings =
     (case extract_text_with_pages P T (file_content file) (filename file) of
        Inl e \<Rightarrow> (Inl e, s)
      | Inr (raw_text, page_texts) \<Rightarrow>
          if raw_text = [] then process_files P T create files s all_chunk_objs all_embeddings
          else (let page_chunks = page_chunks_of T page_texts
                in if page_chunks = []
                   then process_files P T create files s all_chunk_objs all_embeddings
                   else (case get_embeddings_batch create s (map snd page_chunks) 100 of
                           (Inl e, s') \<Rightarrow> (Inl e, s')
                         | (Inr file_embeddings, s') \<Rightarrow>
                             process_files P T create files s'
                               (all_chunk_objs @ file_chunk_objs (filename file) page_chunks)
                               (all_embeddings @ file_embeddings))))"

text \<open>The response of the endpoint: its status, with the message or the two counts.\<close>

datatype upload_response = UploadError string | UploadSuccess nat nat

text \<open>
  The endpoint, on the state of the embedding service and of the vector store. The
  collection is created anew, with the size of the first embedding, before the records
  are uploaded.
\<close>

definition upload_docs ::
  "parsers \<Rightarrow> char_tables \<Rightarrow> 's embedding_service \<Rightarrow> upload_file list \<Rightarrow> 's \<Rightarrow> qdrant
     \<Rightarrow> (exn + upload_response) \<times> 's \<times> qdrant" where
  "upload_docs P T create files s st =
     (if files = [] then (Inr (UploadError ''No files provided''), s, st)
      else (case process_files P T create files s [] [] of
              (Inl e, s') \<Rightarrow> (Inl e, s', st)
            | (Inr (all_chunk_objs, all_embeddings), s') \<Rightarrow>
                if all_embeddings = []
                then (Inr (UploadError ''No valid content found in uploaded files''), s', st)
                else (case create_collection st COLLECTION_NAME (length (all_embeddings ! 0)) of
                        (Inl e, st') \<Rightarrow> (Inl e, s', st')
                      | (Inr u, st') \<Rightarrow>
                          (case upload_documents_with_metadata st' COLLECTION_NAME
                                  all_chunk_objs all_embeddings of
                             (Inl e, st'') \<Rightarrow> (Inl e, s', st'')
                           | (Inr u', st'') \<Rightarrow>
                               (Inr (UploadSuccess (length all_chunk_objs) (length files)),
                                s', st'')))))"

subsection \<open>A concrete installation\<close>

text \<open>
  Parsers for concrete runs. The codec decodes a file of ASCII bytes to the characters
  with those codes and raises on a byte of 128 or more (the byte 255 of the run below
  occurs in no UTF-8 text). Both document libraries are installed, and they raise on
  every input of these runs, none of which is a PDF or a DOCX document.
\<close>

definition plain_parsers :: parsers where
  "plain_parsers =
     \<lparr> decode_utf8 = (\<lambda>b. if list_all (\<lambda>x. x < 128) b then Inr (map char_of b)
                          else Inl UnicodeDecodeError),
       pdf_pages = (\<lambda>b. Inl (ServiceError ''not a PDF'')),
       docx_paragraphs = (\<lambda>b. Inl (ServiceError ''not a DOCX'')),
       PDF_SUPPORT = True,
       DOCX_SUPPORT = True \<rparr>"

text \<open>
  Two calls of the endpoint, one after the other, on an empty store: the first uploads
  \<^verbatim>\<open>a.md\<close>, the second \<^verbatim>\<open>b.md\<close>, each a file of one sentence.
\<close>

definition first_upload :: "(exn + upload_response) \<times> nat \<times> qdrant" where
  "first_upload =
     upload_docs plain_parsers ascii_tables mock_service
       [\<lparr> filename = ''a.md'', file_content = map of_char ''Auth uses JWT with HS256.'' \<rparr>]
       0 Map.empty"

definition second_upload :: "(exn + upload_response) \<times> nat \<times> qdrant" where
  "second_upload =
     upload_docs plain_parsers ascii_tables mock_service
       [\<lparr> filename = ''b.md'', file_content = map of_char ''Use OAuth.'' \<rparr>]
       (fst (snd first_upload)) (snd (snd first_upload))"

text \<open>
  Four files none of which gives a chunk: an empty text file, a markdown file whose
  characters are all deleted by the cleaner, a PDF file that cannot be read, and a file
  of a kind that is not supported.
\<close>

definition files_without_content :: "upload_file list" where
  "files_without_content =
     [\<lparr> filename = ''empty.txt'', file_content = [] \<rparr>,
      \<lparr> filename = ''symbols.md'', file_content = map of_char ''@@@ ###'' \<rparr>,
      \<lparr> filename = ''broken.pdf'', file_content = [255] \<rparr>,
      \<lparr> filename = ''image.png'', file_content = [137, 80, 78, 71] \<rparr>]"

section \<open>Properties of document\_processor.py\<close>

subsection \<open>clean\_text\<close>

lemma collapse_whitespace_set:
  "c \<in> set (collapse_whitespace ws s) \<Longrightarrow> c = CHR '' '' \<or> (c \<in> set s \<and> \<not> ws c)"
proof (induction ws s rule: collapse_whitespace.induct)
  case (1 ws)
  then show ?case by simp
next
  case (2 ws d ds)
  show ?case
  proof (cases "ws d")
    case True
    with 2 have "c = CHR '' '' \<or> c = CHR '' '' \<or> (c \<in> set (dropWhile ws ds) \<and> \<not> ws c)"
      by auto
    then show ?thesis by (auto dest: set_dropWhileD)
  next
    case False
    with 2 show ?thesis by auto
  qed
qed

lemma collapse_whitespace_hd:
  "collapse_whitespace ws s \<noteq> [] \<Longrightarrow> ws (hd (collapse_whitespace ws s)) \<Longrightarrow> ws (hd s)"
  by (cases s) (auto split: if_splits)

lemma collapse_whitespace_Nil: "collapse_whitespace ws s = [] \<longleftrightarrow> s = []"
  by (cases s) auto

lemma adjacent_whitespace_Cons:
  "adjacent_whitespace ws (a # s) \<longleftrightarrow> (s \<noteq> [] \<and> ws a \<and> ws (hd s)) \<or> adjacent_whitespace ws s"
  by (cases s) auto

lemma hd_dropWhile_not: "dropWhile P xs \<noteq> [] \<Longrightarrow> \<not> P (hd (dropWhile P xs))"
  by (simp add: hd_dropWhile)

lemma collapse_whitespace_no_adjacent:
  "\<not> adjacent_whitespace ws (collapse_whitespace ws s)"
proof (induction ws s rule: collapse_whitespace.induct)
  case (1 ws)
  then show ?case by simp
next
  case (2 ws d ds)
  show ?case
  proof (cases "ws d")
    case True
    have "\<not> (collapse_whitespace ws (dropWhile ws ds) \<noteq> []
             \<and> ws (hd (collapse_whitespace ws (dropWhile ws ds))))"
      using collapse_whitespace_hd [of ws "dropWhile ws ds"] hd_dropWhile_not [of ws ds]
      by (auto simp: collapse_whitespace_Nil)
    with True 2 show ?thesis by (simp add: adjacent_whitespace_Cons)
  next
    case False
    with 2 show ?thesis by (simp add: adjacent_whitespace_Cons)
  qed
qed

lemma filter_dropWhile_not: "filter (\<lambda>c. \<not> P c) (dropWhile P xs) = filter (\<lambda>c. \<not> P c) xs"
  by (induction xs) auto

lemma collapse_whitespace_keeps:
  "ws CHR '' '' \<Longrightarrow> filter (\<lambda>c. \<not> ws c) (collapse_whitespace ws s) = filter (\<lambda>c. \<not> ws c) s"
  by (induction ws s rule: collapse_whitespace.induct) (auto simp: filter_dropWhile_not)

lemma strip_decomp: "\<exists>a b. s = a @ strip ws s @ b \<and> (\<forall>c\<in>set a. ws c) \<and> (\<forall>c\<in>set b. ws c)"
proof -
  let ?t = "dropWhile ws s"
  have 1: "s = takeWhile ws s @ ?t" by simp
  have 2: "rev ?t = takeWhile ws (rev ?t) @ dropWhile ws (rev ?t)" by simp
  have "rev (rev ?t) = rev (takeWhile ws (rev ?t) @ dropWhile ws (rev ?t))"
    by (simp only: takeWhile_dropWhile_id)
  then have "?t = rev (dropWhile ws (rev ?t)) @ rev (takeWhile ws (rev ?t))"
    by (simp only: rev_rev_ident rev_append)
  then have "s = takeWhile ws s @ strip ws s @ rev (takeWhile ws (rev ?t))"
    unfolding strip_def using 1 by simp
  moreover have "\<forall>c\<in>set (takeWhile ws s). ws c" by (auto dest: set_takeWhileD)
  moreover have "\<forall>c\<in>set (rev (takeWhile ws (rev ?t))). ws c" by (auto dest: set_takeWhileD)
  ultimately show ?thesis by blast
qed

lemma strip_ends:
  "strip ws s = [] \<or> (\<not> ws (hd (strip ws s)) \<and> \<not> ws (last (strip ws s)))"
proof (cases "strip ws s = []")
  case True
  then show ?thesis by simp
next
  case False
  let ?t = "dropWhile ws s"
  let ?u = "dropWhile ws (rev ?t)"
  from False have u: "?u \<noteq> []" by (simp add: strip_def)
  then have t: "?t \<noteq> []" by (metis dropWhile.simps(1) rev.simps(1))
  have "last (strip ws s) = hd ?u" using u by (simp add: strip_def last_rev)
  then have l: "\<not> ws (last (strip ws s))" using hd_dropWhile_not [OF u] by simp
  have "hd (strip ws s) = last ?u" using u by (simp add: strip_def hd_rev)
  also have "\<dots> = last (rev ?t)"
    using u by (metis last_appendR takeWhile_dropWhile_id)
  also have "\<dots> = hd ?t" using t by (simp add: last_rev)
  finally have "\<not> ws (hd (strip ws s))" using hd_dropWhile_not [OF t] by simp
  with l show ?thesis by simp
qed

lemma adjacent_whitespace_append:
  "adjacent_whitespace ws ys \<Longrightarrow> adjacent_whitespace ws (xs @ ys @ zs)"
proof (induction xs)
  case Nil
  then show ?case
    by (induction ws ys rule: adjacent_whitespace.induct) auto
next
  case (Cons x xs)
  then show ?case by (simp add: adjacent_whitespace_Cons)
qed

lemma strip_no_adjacent:
  assumes "\<not> adjacent_whitespace ws s"
  shows "\<not> adjacent_whitespace ws (strip ws s)"
proof
  assume a: "adjacent_whitespace ws (strip ws s)"
  obtain x y where s: "s = x @ strip ws s @ y" using strip_decomp by blast
  have "adjacent_whitespace ws (x @ strip ws s @ y)"
    using a by (rule adjacent_whitespace_append)
  with s assms show False by simp
qed

lemma strip_set: "set (strip ws s) \<subseteq> set s"
proof -
  obtain x y where s: "s = x @ strip ws s @ y" using strip_decomp by blast
  have "set (strip ws s) \<subseteq> set (x @ strip ws s @ y)" by auto
  with s show ?thesis by simp
qed

lemma strip_keeps: "filter (\<lambda>c. \<not> ws c) (strip ws s) = filter (\<lambda>c. \<not> ws c) s"
proof -
  obtain a b where s: "s = a @ strip ws s @ b" and a: "\<forall>c\<in>set a. ws c" and b: "\<forall>c\<in>set b. ws c"
    using strip_decomp by blast
  have "filter (\<lambda>c. \<not> ws c) a = []" "filter (\<lambda>c. \<not> ws c) b = []"
    using a b by (auto simp: filter_empty_conv)
  then show ?thesis using arg_cong [OF s, of "filter (\<lambda>c. \<not> ws c)"] by simp
qed

lemma allowed_space: "is_space T c \<Longrightarrow> allowed T c"
  by (simp add: allowed_def)

lemma one_space_per_run_from:
  "map (\<lambda>(before, c). if ws c then CHR '' '' else c)
     (filter (\<lambda>(before, c). \<not> (ws c \<and> (case before of None \<Rightarrow> False | Some b \<Rightarrow> ws b)))
        (zip (p # map Some s) s))
   = (if (case p of None \<Rightarrow> False | Some b \<Rightarrow> ws b)
      then collapse_whitespace ws (dropWhile ws s) else collapse_whitespace ws s)"
proof (induction s arbitrary: p)
  case Nil
  then show ?case by simp
next
  case (Cons c cs)
  show ?case using Cons.IH [of "Some c"] by (simp split: option.splits)
qed

lemma collapse_whitespace_runs: "collapse_whitespace ws s = one_space_per_run ws s"
  using one_space_per_run_from [of ws None s] by (simp add: one_space_per_run_def)

text \<open>
  C8 (amended). For every whitespace class that holds the space character, the result of
  \<^verbatim>\<open>clean_text\<close> is what is left of the input after these three steps, in this order:
  every run of whitespace is replaced by a single space (\<open>one_space_per_run\<close>), every
  character outside the allow-list is deleted, and whitespace is cut off at both ends
  (the filtered text is the result with whitespace only before and after it, and the
  result neither starts nor ends with whitespace). The result holds only characters of
  the allow-list, its only whitespace character is the space, and its non-whitespace
  characters are exactly the allow-listed non-whitespace characters of the input, in
  order. Because the runs are collapsed before the other characters are deleted, two
  spaces can end up side by side where only deleted characters stood between them; when
  every character of the input is on the allow-list, the result has no two adjacent
  whitespace characters.
\<close>

theorem clean_text_properties:
  assumes "is_space T CHR '' ''"
  shows "(\<forall>c\<in>set (clean_text T text). allowed T c \<and> (is_space T c \<longrightarrow> c = CHR '' ''))
       \<and> (clean_text T text = []
            \<or> (\<not> is_space T (hd (clean_text T text)) \<and> \<not> is_space T (last (clean_text T text))))
       \<and> filter (\<lambda>c. \<not> is_space T c) (clean_text T text)
            = filter (\<lambda>c. allowed T c \<and> \<not> is_space T c) text
       \<and> ((\<forall>c\<in>set text. allowed T c) \<longrightarrow> \<not> adjacent_whitespace (is_space T) (clean_text T text))
       \<and> (\<exists>a b. filter (allowed T) (one_space_per_run (is_space T) text)
                    = a @ clean_text T text @ b
                  \<and> (\<forall>c\<in>set a. is_space T c) \<and> (\<forall>c\<in>set b. is_space T c))"
proof -
  let ?ws = "is_space T"
  let ?t1 = "collapse_whitespace ?ws text"
  let ?t2 = "filter (allowed T) ?t1"
  have ct: "clean_text T text = strip ?ws ?t2" by (simp add: clean_text_def)
  have p1: "\<forall>c\<in>set (clean_text T text). allowed T c \<and> (?ws c \<longrightarrow> c = CHR '' '')"
  proof
    fix c assume "c \<in> set (clean_text T text)"
    then have "c \<in> set ?t2" using strip_set [of "?ws" "?t2"] unfolding ct by blast
    then have "allowed T c" "c \<in> set ?t1" by auto
    then show "allowed T c \<and> (?ws c \<longrightarrow> c = CHR '' '')"
      using collapse_whitespace_set [of c "?ws" "text"] by blast
  qed
  have p2: "clean_text T text = []
            \<or> (\<not> ?ws (hd (clean_text T text)) \<and> \<not> ?ws (last (clean_text T text)))"
    unfolding ct by (rule strip_ends)
  have "filter (\<lambda>c. \<not> ?ws c) (clean_text T text) = filter (\<lambda>c. \<not> ?ws c) ?t2"
    unfolding ct by (rule strip_keeps)
  also have "\<dots> = filter (allowed T) (filter (\<lambda>c. \<not> ?ws c) ?t1)"
    by (simp add: conj_commute)
  also have "\<dots> = filter (allowed T) (filter (\<lambda>c. \<not> ?ws c) text)"
    using assms by (simp only: collapse_whitespace_keeps)
  also have "\<dots> = filter (\<lambda>c. allowed T c \<and> \<not> ?ws c) text"
    by (simp add: conj_commute)
  finally have p3: "filter (\<lambda>c. \<not> ?ws c) (clean_text T text)
                     = filter (\<lambda>c. allowed T c \<and> \<not> ?ws c) text" .
  have p4: "(\<forall>c\<in>set text. allowed T c) \<longrightarrow> \<not> adjacent_whitespace ?ws (clean_text T text)"
  proof
    assume a: "\<forall>c\<in>set text. allowed T c"
    have "\<forall>c\<in>set ?t1. allowed T c"
    proof
      fix c assume "c \<in> set ?t1"
      then have "c = CHR '' '' \<or> c \<in> set text"
        using collapse_whitespace_set [of c "?ws" "text"] by blast
      then show "allowed T c" using a assms allowed_space by blast
    qed
    then have "?t2 = ?t1" by (simp add: filter_id_conv)
    then show "\<not> adjacent_whitespace ?ws (clean_text T text)"
      unfolding ct by (simp add: collapse_whitespace_no_adjacent strip_no_adjacent)
  qed
  have p5: "\<exists>a b. filter (allowed T) (one_space_per_run ?ws text) = a @ clean_text T text @ b
                  \<and> (\<forall>c\<in>set a. ?ws c) \<and> (\<forall>c\<in>set b. ?ws c)"
    unfolding ct collapse_whitespace_runs [symmetric] by (rule strip_decomp)
  from p1 p2 p3 p4 p5 show ?thesis by (intro conjI)
qed

theorem clean_text_properties_witness:
  "is_space ascii_tables CHR '' '' \<and>
   list_all (allowed ascii_tables) ''  Hello,   world!  '' \<and>
   clean_text ascii_tables ''  Hello,   world!  '' = ''Hello, world!'' \<and>
   \<not> adjacent_whitespace (is_space ascii_tables) (clean_text ascii_tables ''  Hello,   world!  '')"
proof -
  have h: "is_space ascii_tables CHR '' ''"
    by code_simp
  have a: "\<forall>c\<in>set ''  Hello,   world!  ''. allowed ascii_tables c"
    by code_simp
  have "\<not> adjacent_whitespace (is_space ascii_tables)
           (clean_text ascii_tables ''  Hello,   world!  '')"
    using clean_text_properties [OF h, of "''  Hello,   world!  ''"] a by blast
  moreover have "list_all (allowed ascii_tables) ''  Hello,   world!  ''"
    by code_simp
  moreover have "clean_text ascii_tables ''  Hello,   world!  '' = ''Hello, world!''"
    by code_simp
  ultimately show ?thesis using h by (intro conjI)
qed

text \<open>
  C8 as stated fails: in \<^verbatim>\<open>"a @ b"\<close> the character \<^verbatim>\<open>@\<close> is deleted after the
  whitespace runs were collapsed, and the two spaces around it become neighbours.
\<close>

theorem clean_text_adjacent_spaces:
  "clean_text ascii_tables ''a @ b'' = ''a  b'' \<and>
   adjacent_whitespace (is_space ascii_tables) (clean_text ascii_tables ''a @ b'')"
  by code_simp

subsection \<open>chunk\_by\_sentences\<close>


text \<open>
  C3. The claim is that the empty text is chunked into the empty sequence. The code
  does not do that: \<^verbatim>\<open>re.split\<close> of the empty text is the one-element list holding the
  empty sentence, the loop appends it to \<^verbatim>\<open>current_chunk\<close>, and the final test
  \<^verbatim>\<open>if current_chunk\<close> looks at the list (which is not empty), not at its content. For
  every chunk size and every overlap the result is one empty chunk.
\<close>

theorem chunk_by_sentences_empty_text:
  "chunk_by_sentences T [] chunk_size overlap = ['''']"
  by (simp add: chunk_by_sentences_def)



lemma chunk_loop_groups:
  "chunk_loop cs ov ss (map join gs) cur len = map join (group_loop cs ov ss gs cur len)"
proof (induction ss arbitrary: gs cur len)
  case Nil
  then show ?case by simp
next
  case (Cons s ss)
  show ?case
  proof (cases "len + int (length s) > cs \<and> cur \<noteq> []")
    case True
    obtain a b where ab: "overlap_scan ov (rev cur) [] 0 = (a, b)" by fastforce
    have "chunk_loop cs ov ss (map join (gs @ [cur])) (a @ [s]) (b + int (length s))
          = map join (group_loop cs ov ss (gs @ [cur]) (a @ [s]) (b + int (length s)))"
      by (rule Cons.IH)
    with True ab show ?thesis by simp
  next
    case False
    with Cons.IH [of gs "cur @ [s]" "len + int (length s)"] show ?thesis by auto
  qed
qed

lemma sentences_length_simps:
  "sentences_length [] = 0"
  "sentences_length (s # ss) = int (length s) + sentences_length ss"
  "sentences_length (xs @ ys) = sentences_length xs + sentences_length ys"
  "sentences_length (rev xs) = sentences_length xs"
  by (simp_all add: sentences_length_def rev_map [symmetric] del: rev_map)

lemma sentences_length_nonneg: "0 \<le> sentences_length ss"
  by (induction ss) (simp_all add: sentences_length_simps)

lemma overlap_scan_take:
  "\<exists>k\<le>length xs.
     overlap_scan ov xs acc len = (rev (take k xs) @ acc, len + sentences_length (take k xs))
     \<and> (0 < k \<longrightarrow> len + sentences_length (take k xs) \<le> ov)
     \<and> (k < length xs \<longrightarrow> len + sentences_length (take (Suc k) xs) > ov)"
proof (induction xs arbitrary: acc len)
  case Nil
  then show ?case by (simp add: sentences_length_simps)
next
  case (Cons x xs)
  show ?case
  proof (cases "len + int (length x) \<le> ov")
    case True
    obtain k where k: "k \<le> length xs"
      "overlap_scan ov xs (x # acc) (len + int (length x))
         = (rev (take k xs) @ x # acc, len + int (length x) + sentences_length (take k xs))"
      "0 < k \<longrightarrow> len + int (length x) + sentences_length (take k xs) \<le> ov"
      "k < length xs \<longrightarrow> len + int (length x) + sentences_length (take (Suc k) xs) > ov"
      using Cons.IH [of "x # acc" "len + int (length x)"] by blast
    show ?thesis
    proof (intro exI [of _ "Suc k"] conjI)
      show "Suc k \<le> length (x # xs)" using k(1) by simp
      show "overlap_scan ov (x # xs) acc len
            = (rev (take (Suc k) (x # xs)) @ acc, len + sentences_length (take (Suc k) (x # xs)))"
        using True k(2) by (simp add: sentences_length_simps)
      show "0 < Suc k \<longrightarrow> len + sentences_length (take (Suc k) (x # xs)) \<le> ov"
        using True k(3) by (cases k) (simp_all add: sentences_length_simps)
      show "Suc k < length (x # xs) \<longrightarrow> ov < len + sentences_length (take (Suc (Suc k)) (x # xs))"
        using k(4) by (simp add: sentences_length_simps add.assoc)
    qed
  next
    case False
    show ?thesis
    proof (intro exI [of _ 0] conjI)
      show "overlap_scan ov (x # xs) acc len
            = (rev (take 0 (x # xs)) @ acc, len + sentences_length (take 0 (x # xs)))"
        using False by (simp add: sentences_length_simps)
      show "0 < length (x # xs) \<longrightarrow> ov < len + sentences_length (take (Suc 0) (x # xs))"
        using False by (simp add: sentences_length_simps)
    qed simp_all
  qed
qed

lemma join_append:
  "xs \<noteq> [] \<Longrightarrow> ys \<noteq> [] \<Longrightarrow> join (xs @ ys) = join xs @ '' '' @ join ys"
proof (induction xs rule: join.induct)
  case 1
  then show ?case by simp
next
  case (2 x)
  then show ?case by (cases ys) simp_all
next
  case (3 x y zs)
  then show ?case by simp
qed

lemma suffix_join: "suffix (join r) (join (before @ r))"
proof (cases "before = [] \<or> r = []")
  case True
  then show ?thesis by auto
next
  case False
  then have "join (before @ r) = (join before @ '' '') @ join r"
    by (simp add: join_append)
  then show ?thesis unfolding suffix_def by blast
qed

lemma prefix_join: "prefix (join r) (join (r @ rest))"
proof (cases "rest = [] \<or> r = []")
  case True
  then show ?thesis by auto
next
  case False
  then have "join (r @ rest) = join r @ ('' '' @ join rest)"
    by (simp add: join_append)
  then show ?thesis unfolding prefix_def by blast
qed

lemma length_join:
  "int (length (join r)) = sentences_length r + max 0 (int (length r) - 1)"
  by (induction r rule: join.induct) (simp_all add: sentences_length_simps)

lemma overlap_sentences_drop:
  "\<exists>k\<le>length cur.
     overlap_sentences ov cur = drop (length cur - k) cur
     \<and> (0 < k \<longrightarrow> sentences_length (drop (length cur - k) cur) \<le> ov)
     \<and> (k < length cur \<longrightarrow> sentences_length (drop (length cur - Suc k) cur) > ov)"
proof -
  obtain k where k: "k \<le> length (rev cur)"
    "overlap_scan ov (rev cur) [] 0
       = (rev (take k (rev cur)) @ [], 0 + sentences_length (take k (rev cur)))"
    "0 < k \<longrightarrow> 0 + sentences_length (take k (rev cur)) \<le> ov"
    "k < length (rev cur) \<longrightarrow> 0 + sentences_length (take (Suc k) (rev cur)) > ov"
    using overlap_scan_take [of "rev cur" ov "[]" 0] by blast
  have d: "\<And>j. rev (take j (rev cur)) = drop (length cur - j) cur"
    by (simp add: take_rev)
  have sl: "\<And>j. sentences_length (take j (rev cur)) = sentences_length (drop (length cur - j) cur)"
    using d sentences_length_simps(4) by metis
  show ?thesis
  proof (intro exI [of _ k] conjI)
    show "k \<le> length cur" using k(1) by simp
    show "overlap_sentences ov cur = drop (length cur - k) cur"
      using k(2) d by (simp add: overlap_sentences_def)
    show "0 < k \<longrightarrow> sentences_length (drop (length cur - k) cur) \<le> ov"
      using k(3) sl by simp
    show "k < length cur \<longrightarrow> ov < sentences_length (drop (length cur - Suc k) cur)"
      using k(4) sl by simp
  qed
qed

lemma overlap_link_intro:
  assumes "earlier \<noteq> []" and "rest \<noteq> []"
    and "later = overlap_sentences ov earlier @ rest"
  shows "overlap_link ov earlier later"
proof -
  let ?r = "overlap_sentences ov earlier"
  obtain k where k: "k \<le> length earlier"
    "?r = drop (length earlier - k) earlier"
    "0 < k \<longrightarrow> sentences_length (drop (length earlier - k) earlier) \<le> ov"
    "k < length earlier \<longrightarrow> sentences_length (drop (length earlier - Suc k) earlier) > ov"
    using overlap_sentences_drop by blast
  let ?b = "take (length earlier - k) earlier"
  have split: "earlier = ?b @ ?r" using k(2) by simp
  have len_r: "length ?r = k" using k(1,2) by simp
  have bound: "sentences_length ?r \<le> max 0 ov"
  proof (cases "0 < k")
    case True
    then show ?thesis using k(2,3) by simp
  next
    case False
    then have "?r = []" using len_r by simp
    then show ?thesis by (simp add: sentences_length_simps)
  qed
  have maximal: "?b = [] \<or> sentences_length (last ?b # ?r) > ov"
  proof (cases "k < length earlier")
    case True
    let ?n = "length earlier - Suc k"
    have n: "?n < length earlier" "Suc ?n = length earlier - k" using True by simp_all
    have "drop ?n earlier = earlier ! ?n # drop (Suc ?n) earlier"
      using n(1) by (simp add: Cons_nth_drop_Suc)
    moreover have "last ?b = earlier ! ?n"
    proof -
      have "?b \<noteq> []" using True by auto
      then have "last ?b = ?b ! (length ?b - 1)" by (rule last_conv_nth)
      also have "\<dots> = earlier ! ?n" using True by simp
      finally show ?thesis .
    qed
    ultimately have "drop ?n earlier = last ?b # ?r" using k(2) n(2) by simp
    then show ?thesis using k(4) True by simp
  next
    case False
    then show ?thesis using k(1) by simp
  qed
  have nonempty: "?r \<noteq> [] \<longleftrightarrow> int (length (last earlier)) \<le> ov"
  proof
    assume "?r \<noteq> []"
    then have k0: "0 < k" using len_r by auto
    then have "sentences_length ?r \<le> ov" using k(2,3) by simp
    moreover have "last earlier = last ?r" using split \<open>?r \<noteq> []\<close> by (metis last_appendR)
    moreover have "int (length (last ?r)) \<le> sentences_length ?r"
      using \<open>?r \<noteq> []\<close>
    proof (induction "?r" rule: rev_induct)
      case Nil
      then show ?case by simp
    next
      case (snoc x xs)
      then show ?case
        using sentences_length_nonneg [of xs]
        by (metis add.commute add_increasing2 last_snoc order_refl sentences_length_simps(1,2,3) add.right_neutral)
    qed
    ultimately show "int (length (last earlier)) \<le> ov" by simp
  next
    assume a: "int (length (last earlier)) \<le> ov"
    show "?r \<noteq> []"
    proof
      assume e: "?r = []"
      then have "k = 0" using len_r by simp
      then have "sentences_length (drop (length earlier - Suc 0) earlier) > ov"
        using k(4) assms(1) by simp
      moreover have "drop (length earlier - Suc 0) earlier = [last earlier]"
        using assms(1) by (induction earlier rule: rev_induct) simp_all
      ultimately show False using a by (simp add: sentences_length_simps)
    qed
  qed
  have "suffix (join ?r) (join earlier)"
    using suffix_join [of ?r ?b] split by simp
  moreover have "prefix (join ?r) (join later)"
    using prefix_join [of ?r rest] assms(3) by simp
  moreover have "\<exists>before. earlier = before @ ?r
                   \<and> (before = [] \<or> sentences_length (last before # ?r) > ov)"
    using split maximal by blast
  moreover have "\<exists>rest. rest \<noteq> [] \<and> later = ?r @ rest"
    using assms(2,3) by blast
  ultimately show ?thesis
    unfolding overlap_link_def Let_def
    using assms(1) nonempty bound length_join [of ?r] by (intro conjI)
qed

lemma successively_snoc_link:
  assumes "successively (overlap_link ov) gs" and "cur \<noteq> []"
    and "gs \<noteq> [] \<Longrightarrow>
           last gs \<noteq> [] \<and> (\<exists>rest. rest \<noteq> [] \<and> cur = overlap_sentences ov (last gs) @ rest)"
  shows "successively (overlap_link ov) (gs @ [cur])"
proof (cases "gs = []")
  case True
  then show ?thesis by simp
next
  case False
  then have "overlap_link ov (last gs) cur"
    using assms(3) overlap_link_intro by blast
  then show ?thesis using assms(1) by (simp add: successively_append_iff)
qed

lemma group_loop_links:
  assumes "successively (overlap_link ov) gs"
    and "gs \<noteq> [] \<Longrightarrow>
           last gs \<noteq> [] \<and> (\<exists>rest. rest \<noteq> [] \<and> cur = overlap_sentences ov (last gs) @ rest)"
  shows "successively (overlap_link ov) (group_loop cs ov ss gs cur len)"
  using assms
proof (induction ss arbitrary: gs cur len)
  case Nil
  then show ?case using successively_snoc_link [of ov gs cur] by simp
next
  case (Cons s ss)
  show ?case
  proof (cases "len + int (length s) > cs \<and> cur \<noteq> []")
    case True
    obtain a b where ab: "overlap_scan ov (rev cur) [] 0 = (a, b)" by fastforce
    then have a: "a = overlap_sentences ov cur" by (simp add: overlap_sentences_def)
    have 1: "successively (overlap_link ov) (gs @ [cur])"
      using successively_snoc_link [of ov gs cur] Cons.prems True by blast
    have 2: "gs @ [cur] \<noteq> [] \<Longrightarrow> last (gs @ [cur]) \<noteq> []
               \<and> (\<exists>rest. rest \<noteq> [] \<and> a @ [s] = overlap_sentences ov (last (gs @ [cur])) @ rest)"
      using True a by simp
    have "successively (overlap_link ov)
            (group_loop cs ov ss (gs @ [cur]) (a @ [s]) (b + int (length s)))"
      using 1 2 by (rule Cons.IH)
    then show ?thesis using True ab by simp
  next
    case False
    have 2: "gs \<noteq> [] \<Longrightarrow> last gs \<noteq> []
               \<and> (\<exists>rest. rest \<noteq> [] \<and> cur @ [s] = overlap_sentences ov (last gs) @ rest)"
    proof -
      assume "gs \<noteq> []"
      then obtain rest where r: "last gs \<noteq> []" "cur = overlap_sentences ov (last gs) @ rest"
        using Cons.prems(2) by blast
      then have "cur @ [s] = overlap_sentences ov (last gs) @ (rest @ [s])" by simp
      then show ?thesis using r(1) by blast
    qed
    have "successively (overlap_link ov)
            (group_loop cs ov ss gs (cur @ [s]) (len + int (length s)))"
      using Cons.prems(1) 2 by (rule Cons.IH)
    then show ?thesis using False by auto
  qed
qed

lemma successively_nth:
  "successively P xs \<Longrightarrow> Suc i < length xs \<Longrightarrow> P (xs ! i) (xs ! Suc i)"
proof (induction xs arbitrary: i)
  case Nil
  then show ?case by simp
next
  case (Cons x xs)
  then show ?case
    by (cases i) (auto simp: successively_Cons hd_conv_nth)
qed

text \<open>
  C4 (amended). For every text, chunk size and overlap, the chunks are the joined
  sentence groups, and every two consecutive chunks are linked as \<open>overlap_link\<close> says:
  the later chunk starts with the longest run of whole sentences that ends the earlier
  chunk and whose lengths add up to at most \<open>overlap\<close>, and goes on with at least one
  further sentence. That run is empty when the last sentence of the earlier chunk is
  longer than \<open>overlap\<close>, and joined it is longer than the summed sentence lengths by
  one space between neighbouring sentences.
\<close>

theorem chunk_by_sentences_overlap:
  "chunk_by_sentences T text chunk_size overlap
     = map join (sentence_groups T text chunk_size overlap)
   \<and> (\<forall>i. Suc i < length (sentence_groups T text chunk_size overlap) \<longrightarrow>
          overlap_link overlap (sentence_groups T text chunk_size overlap ! i)
                               (sentence_groups T text chunk_size overlap ! Suc i))"
proof -
  have "chunk_by_sentences T text chunk_size overlap
          = map join (sentence_groups T text chunk_size overlap)"
    unfolding chunk_by_sentences_def sentence_groups_def
    using chunk_loop_groups [of chunk_size overlap _ "[]" "[]" 0] by simp
  moreover have "successively (overlap_link overlap) (sentence_groups T text chunk_size overlap)"
    unfolding sentence_groups_def by (rule group_loop_links) simp_all
  ultimately show ?thesis using successively_nth by blast
qed

theorem chunk_by_sentences_overlap_witness:
  "Suc 0 < length (sentence_groups ascii_tables ''Aa. Bb. Cccccc.'' 8 3)
   \<and> chunk_by_sentences ascii_tables ''Aa. Bb. Cccccc.'' 8 3 = [''Aa. Bb.'', ''Bb. Cccccc.'']
   \<and> overlap_sentences 3 [''Aa.'', ''Bb.''] = [''Bb.'']
   \<and> overlap_link 3 [''Aa.'', ''Bb.''] [''Bb.'', ''Cccccc.'']"
proof -
  have g: "sentence_groups ascii_tables ''Aa. Bb. Cccccc.'' 8 3
             = [[''Aa.'', ''Bb.''], [''Bb.'', ''Cccccc.'']]"
    by code_simp
  have n: "Suc 0 < length (sentence_groups ascii_tables ''Aa. Bb. Cccccc.'' 8 3)"
    by (simp add: g)
  have "overlap_link 3 (sentence_groups ascii_tables ''Aa. Bb. Cccccc.'' 8 3 ! 0)
                       (sentence_groups ascii_tables ''Aa. Bb. Cccccc.'' 8 3 ! Suc 0)"
    using chunk_by_sentences_overlap [of ascii_tables "''Aa. Bb. Cccccc.''" 8 3] n by blast
  then have "overlap_link 3 [''Aa.'', ''Bb.''] [''Bb.'', ''Cccccc.'']"
    by (simp add: g)
  moreover have "chunk_by_sentences ascii_tables ''Aa. Bb. Cccccc.'' 8 3
                   = [''Aa. Bb.'', ''Bb. Cccccc.'']"
    by code_simp
  moreover have "overlap_sentences 3 [''Aa.'', ''Bb.''] = [''Bb.'']"
    by code_simp
  ultimately show ?thesis using n by (intro conjI)
qed

text \<open>
  C4 as stated fails in both of its parts, with \<open>overlap < chunk_size\<close>. Two sentences
  of ten characters with chunk size 10 and overlap 5 give two chunks that share nothing:
  the only candidate sentence is longer than the overlap. Two short sentences followed
  by a long one, with overlap 4, give chunks whose shared region \<^verbatim>\<open>a. b.\<close> has five
  characters: the joining space is not counted against the overlap.
\<close>

theorem chunk_by_sentences_no_shared_overlap:
  "chunk_by_sentences ascii_tables ''Aaaa aaaa. Bbbb bbbb.'' 10 5
     = [''Aaaa aaaa.'', ''Bbbb bbbb.'']
   \<and> \<not> shares_overlap 5 ''Aaaa aaaa.'' ''Bbbb bbbb.''
   \<and> chunk_by_sentences ascii_tables ''a. b. Ccccccc.'' 10 4
     = [''a. b.'', ''a. b. Ccccccc.'']
   \<and> \<not> shares_overlap 4 ''a. b.'' ''a. b. Ccccccc.''"
  by code_simp
section \<open>Properties of embedder.py\<close>

declare batch_loop.simps [simp del]

lemma get_embedding_Inr:
  "get_embedding create s t = (Inr v, s') \<Longrightarrow> \<exists>rest. create s [t] = (Inr (v # rest), s')"
  by (cases "create s [t]") (auto simp: get_embedding_def split: sum.splits list.splits)

lemma embed_each_idx:
  assumes "\<And>s j v s'. j < length batch \<Longrightarrow> get_embedding create s (batch ! j) = (Inr v, s')
             \<Longrightarrow> R (k + j) v"
    and "\<And>j. j < length batch \<Longrightarrow> R (k + j) zero_vector"
  shows "\<exists>out. fst (embed_each create s batch acc) = acc @ out \<and> length out = length batch
               \<and> (\<forall>j<length batch. R (k + j) (out ! j))"
  using assms
proof (induction batch arbitrary: s acc k)
  case Nil
  then show ?case by simp
next
  case (Cons t batch)
  obtain r s1 where g: "get_embedding create s t = (r, s1)" by fastforce
  define v where "v = (case r of Inr x \<Rightarrow> x | Inl e \<Rightarrow> zero_vector)"
  have step: "embed_each create s (t # batch) acc = embed_each create s1 batch (acc @ [v])"
    using g by (simp add: v_def split: sum.splits)
  have v: "R k v"
  proof (cases r)
    case (Inl e)
    then show ?thesis using Cons.prems(2) [of 0] by (simp add: v_def)
  next
    case (Inr x)
    then show ?thesis using g Cons.prems(1) [of 0 s x s1] by (simp add: v_def)
  qed
  have "\<exists>out. fst (embed_each create s1 batch (acc @ [v])) = (acc @ [v]) @ out
              \<and> length out = length batch \<and> (\<forall>j<length batch. R (Suc k + j) (out ! j))"
  proof (rule Cons.IH)
    fix s j v s'
    assume "j < length batch" "get_embedding create s (batch ! j) = (Inr v, s')"
    then show "R (Suc k + j) v" using Cons.prems(1) [of "Suc j" s v s'] by simp
  next
    fix j assume "j < length batch"
    then show "R (Suc k + j) zero_vector" using Cons.prems(2) [of "Suc j"] by simp
  qed
  then obtain out where out: "fst (embed_each create s1 batch (acc @ [v])) = (acc @ [v]) @ out"
    "length out = length batch" "\<forall>j<length batch. R (Suc k + j) (out ! j)"
    by blast
  have "\<forall>j<length (t # batch). R (k + j) ((v # out) ! j)"
  proof (intro allI impI)
    fix j assume "j < length (t # batch)"
    then show "R (k + j) ((v # out) ! j)" using v out(3) by (cases j) simp_all
  qed
  then show ?case using step out(1,2) by (intro exI [of _ "v # out"]) simp
qed

lemma batch_loop_idx:
  assumes "0 < B"
    and "\<And>s k data s'. B dvd k \<Longrightarrow> k < length texts
           \<Longrightarrow> create s (take B (drop k texts)) = (Inr data, s')
           \<Longrightarrow> length data = length (take B (drop k texts)) \<and> (\<forall>j<length data. R (k + j) (data ! j))"
    and "\<And>s j v s'. j < length texts \<Longrightarrow> get_embedding create s (texts ! j) = (Inr v, s')
           \<Longrightarrow> R j v"
    and "\<And>j. j < length texts \<Longrightarrow> R j zero_vector"
  shows "B dvd idx \<Longrightarrow>
         \<exists>out. fst (batch_loop create B texts idx s acc) = acc @ out
               \<and> length out = length texts - idx
               \<and> (\<forall>j<length out. R (idx + j) (out ! j))"
  using assms
proof (induction create B texts idx s acc rule: batch_loop.induct)
  case (1 create B texts idx s acc)
  note dvd = "1.prems"(1) and pos = "1.prems"(2) and contract = "1.prems"(3)
    and item = "1.prems"(4) and zero = "1.prems"(5)
  show ?case
  proof (cases "length texts \<le> idx")
    case True
    then show ?thesis by (simp add: batch_loop.simps [of create B texts idx s acc])
  next
    case False
    let ?batch = "take B (drop idx texts)"
    have len_batch: "length ?batch = min B (length texts - idx)" by simp
    have nth_batch: "\<And>j. j < length ?batch \<Longrightarrow> ?batch ! j = texts ! (idx + j)"
      using False by simp
    have dvd': "B dvd idx + B" using dvd by simp
    obtain r s1 where c: "create s ?batch = (r, s1)" by fastforce
    have cond: "\<not> (B = 0 \<or> length texts \<le> idx)" using False pos by simp
    have combine: "\<exists>out. fst (batch_loop create B texts idx s acc) = acc @ out
               \<and> length out = length texts - idx \<and> (\<forall>j<length out. R (idx + j) (out ! j))"
      if data: "length data = length ?batch" "\<forall>j<length data. R (idx + j) (data ! j)"
        and unfold: "batch_loop create B texts idx s acc
                       = batch_loop create B texts (idx + B) s2 (acc @ data)"
        and ih: "\<exists>out. fst (batch_loop create B texts (idx + B) s2 (acc @ data)) = (acc @ data) @ out
               \<and> length out = length texts - (idx + B)
               \<and> (\<forall>j<length out. R (idx + B + j) (out ! j))"
      for data s2
    proof -
      obtain out where out:
        "fst (batch_loop create B texts (idx + B) s2 (acc @ data)) = (acc @ data) @ out"
        "length out = length texts - (idx + B)" "\<forall>j<length out. R (idx + B + j) (out ! j)"
        using ih by blast
      have l: "length (data @ out) = length texts - idx"
        using data(1) out(2) len_batch False by (simp add: min_def)
      have "\<forall>j<length (data @ out). R (idx + j) ((data @ out) ! j)"
      proof (intro allI impI)
        fix j assume j: "j < length (data @ out)"
        show "R (idx + j) ((data @ out) ! j)"
        proof (cases "j < length data")
          case True
          then show ?thesis using data(2) by (simp add: nth_append)
        next
          case False
          then have lb: "length data = B"
            using data(1) len_batch j l by (simp add: min_def split: if_splits)
          define m where "m = j - length data"
          have m: "m < length out" "j = B + m"
            using j False lb by (simp_all add: m_def)
          have "R (idx + B + m) (out ! m)" using out(3) m(1) by blast
          moreover have "(data @ out) ! j = out ! m"
            using False by (simp add: nth_append m_def)
          ultimately show ?thesis using m(2) by (simp add: add.assoc)
        qed
      qed
      with l out(1) unfold show ?thesis by (intro exI [of _ "data @ out"]) simp
    qed
    show ?thesis
    proof (cases r)
      case (Inr data)
      have d: "length data = length ?batch \<and> (\<forall>j<length data. R (idx + j) (data ! j))"
        using contract [of idx s data s1] dvd False c Inr by simp
      have u: "batch_loop create B texts idx s acc
                 = batch_loop create B texts (idx + B) s1 (acc @ data)"
        using cond c Inr by (simp add: batch_loop.simps [of create B texts idx s acc])
      have "\<exists>out. fst (batch_loop create B texts (idx + B) s1 (acc @ data)) = (acc @ data) @ out
               \<and> length out = length texts - (idx + B)
               \<and> (\<forall>j<length out. R (idx + B + j) (out ! j))"
        using cond c Inr dvd' pos contract item zero
        by (intro "1.IH"(2) [of ?batch r s1 data]) auto
      then show ?thesis using combine [of data s1] d u by blast
    next
      case (Inl e)
      obtain embs s2 where f: "embed_each create s1 ?batch acc = (embs, s2)" by fastforce
      have "\<exists>out. fst (embed_each create s1 ?batch acc) = acc @ out \<and> length out = length ?batch
               \<and> (\<forall>j<length ?batch. R (idx + j) (out ! j))"
      proof (rule embed_each_idx)
        fix s j v s'
        assume j: "j < length ?batch" and "get_embedding create s (?batch ! j) = (Inr v, s')"
        then have "get_embedding create s (texts ! (idx + j)) = (Inr v, s')"
          using nth_batch by simp
        moreover have "idx + j < length texts" using j by auto
        ultimately show "R (idx + j) v" using item [of "idx + j" s v s'] by blast
      next
        fix j assume "j < length ?batch"
        then have "idx + j < length texts" by auto
        then show "R (idx + j) zero_vector" using zero [of "idx + j"] by blast
      qed
      then obtain data where data: "embs = acc @ data" "length data = length ?batch"
        "\<forall>j<length data. R (idx + j) (data ! j)"
        using f by auto
      have u: "batch_loop create B texts idx s acc
                 = batch_loop create B texts (idx + B) s2 (acc @ data)"
        using cond c Inl f data(1) by (simp add: batch_loop.simps [of create B texts idx s acc])
      have "\<exists>out. fst (batch_loop create B texts (idx + B) s2 embs) = embs @ out
               \<and> length out = length texts - (idx + B)
               \<and> (\<forall>j<length out. R (idx + B + j) (out ! j))"
        using cond c Inl f dvd' pos contract item zero
        by (intro "1.IH"(1) [of ?batch r s1 e embs s2]) auto
      then show ?thesis using combine [of data s2] data u by blast
    qed
  qed
qed


lemma embed_each_acc:
  "embed_each create s batch acc
     = (acc @ fst (embed_each create s batch []), snd (embed_each create s batch []))"
proof (induction batch arbitrary: s acc)
  case Nil
  then show ?case by simp
next
  case (Cons t batch)
  obtain r s1 where g: "get_embedding create s t = (r, s1)" by fastforce
  define v where "v = (case r of Inr x \<Rightarrow> x | Inl e \<Rightarrow> zero_vector)"
  have 1: "embed_each create s (t # batch) acc = embed_each create s1 batch (acc @ [v])" for acc
    using g by (simp add: v_def split: sum.splits)
  show ?case
    unfolding 1 using Cons.IH [of s1 "acc @ [v]"] Cons.IH [of s1 "[v]"] by simp
qed

lemma embed_each_append:
  "embed_each create s (xs @ ys) acc
     = (case embed_each create s xs acc of (a, s') \<Rightarrow> embed_each create s' ys a)"
proof (induction xs arbitrary: s acc)
  case Nil
  then show ?case by simp
next
  case (Cons t xs)
  then show ?case by (simp split: prod.splits sum.splits)
qed

lemma embed_each_length:
  "length (fst (embed_each create s batch acc)) = length acc + length batch"
proof (induction batch arbitrary: s acc)
  case Nil
  then show ?case by simp
next
  case (Cons t batch)
  then show ?case by (simp split: prod.splits sum.splits)
qed

lemma embed_each_nth:
  assumes "j < length batch"
  shows "fst (embed_each create s batch []) ! j
           = (case fst (get_embedding create (snd (embed_each create s (take j batch) []))
                          (batch ! j)) of
                Inr v \<Rightarrow> v | Inl e \<Rightarrow> zero_vector)"
proof -
  obtain a s1 where p: "embed_each create s (take j batch) [] = (a, s1)" by fastforce
  have la: "length a = j"
    using embed_each_length [of create s "take j batch" "[]"] p assms by simp
  obtain r s2 where g: "get_embedding create s1 (batch ! j) = (r, s2)" by fastforce
  define v where "v = (case r of Inr x \<Rightarrow> x | Inl e \<Rightarrow> zero_vector)"
  have split: "batch = take j batch @ (batch ! j # drop (Suc j) batch)"
    using assms by (simp add: id_take_nth_drop [symmetric])
  have "embed_each create s batch []
          = embed_each create s1 (batch ! j # drop (Suc j) batch) a"
    using embed_each_append [of create s "take j batch" "batch ! j # drop (Suc j) batch" "[]"]
      p split by simp
  also have "\<dots> = embed_each create s2 (drop (Suc j) batch) (a @ [v])"
    using g by (simp add: v_def split: sum.splits)
  also have "\<dots> = ((a @ [v]) @ fst (embed_each create s2 (drop (Suc j) batch) []),
                    snd (embed_each create s2 (drop (Suc j) batch) []))"
    by (rule embed_each_acc)
  finally have "fst (embed_each create s batch []) ! j = v"
    using la by (simp add: nth_append)
  then show ?thesis using p g by (simp add: v_def)
qed

lemma batch_loop_stop:
  "B = 0 \<or> length xs \<le> i \<Longrightarrow> batch_loop create B xs i s acc = (acc, s)"
  by (simp add: batch_loop.simps [of create B xs i s acc])

lemma batch_loop_step:
  "\<not> (B = 0 \<or> length xs \<le> i) \<Longrightarrow>
     batch_loop create B xs i s acc
       = (case create s (take B (drop i xs)) of
            (Inr data, s1) \<Rightarrow> batch_loop create B xs (i + B) s1 (acc @ data)
          | (Inl e, s1) \<Rightarrow>
              (case embed_each create s1 (take B (drop i xs)) acc of
                 (a, s2) \<Rightarrow> batch_loop create B xs (i + B) s2 a))"
  by (simp add: batch_loop.simps [of create B xs i s acc] Let_def)

lemma batch_loop_acc:
  "batch_loop create B texts idx s acc
     = (acc @ fst (batch_loop create B texts idx s []), snd (batch_loop create B texts idx s []))"
proof (induction "length texts - idx" arbitrary: idx s acc rule: less_induct)
  case less
  show ?case
  proof (cases "B = 0 \<or> length texts \<le> idx")
    case True
    then show ?thesis by (simp add: batch_loop_stop)
  next
    case False
    let ?batch = "take B (drop idx texts)"
    have m: "length texts - (idx + B) < length texts - idx" using False by arith
    obtain r s1 where c: "create s ?batch = (r, s1)" by fastforce
    show ?thesis
    proof (cases r)
      case (Inr data)
      have u: "batch_loop create B texts idx s acc
                 = batch_loop create B texts (idx + B) s1 (acc @ data)" for acc
        using batch_loop_step [OF False, of create s acc] c Inr by simp
      show ?thesis
        unfolding u using less [OF m, of s1 "acc @ data"] less [OF m, of s1 "[] @ data"]
        by simp
    next
      case (Inl e)
      let ?items = "fst (embed_each create s1 ?batch [])"
      let ?s2 = "snd (embed_each create s1 ?batch [])"
      have e: "embed_each create s1 ?batch acc = (acc @ ?items, ?s2)" for acc
        by (rule embed_each_acc)
      have u: "batch_loop create B texts idx s acc
                 = batch_loop create B texts (idx + B) ?s2 (acc @ ?items)" for acc
        using batch_loop_step [OF False, of create s acc] c Inl e [of acc] by simp
      show ?thesis
        unfolding u using less [OF m, of ?s2 "acc @ ?items"] less [OF m, of ?s2 "[] @ ?items"]
        by simp
    qed
  qed
qed

lemma batch_loop_passes:
  "batch_loop create B texts idx s acc
     = (case batch_loop create B (take (idx + n * B) texts) idx s acc of
          (a, s') \<Rightarrow> batch_loop create B texts (idx + n * B) s' a)"
proof (induction n arbitrary: idx s acc)
  case 0
  have "batch_loop create B (take idx texts) idx s acc = (acc, s)"
    by (simp add: batch_loop_stop)
  then show ?case by simp
next
  case (Suc n)
  let ?m = "idx + Suc n * B"
  show ?case
  proof (cases "B = 0 \<or> length texts \<le> idx")
    case True
    have "batch_loop create B texts idx s acc = (acc, s)"
      "batch_loop create B (take ?m texts) idx s acc = (acc, s)"
      "batch_loop create B texts ?m s acc = (acc, s)"
      using True by (auto intro!: batch_loop_stop)
    then show ?thesis by simp
  next
    case False
    let ?batch = "take B (drop idx texts)"
    have same: "take B (drop idx (take ?m texts)) = ?batch"
      by (simp add: drop_take min_def)
    have cond: "\<not> (B = 0 \<or> length (take ?m texts) \<le> idx)" using False by auto
    have m: "idx + B + n * B = ?m" by simp
    obtain r s1 where c: "create s ?batch = (r, s1)" by fastforce
    show ?thesis
    proof (cases r)
      case (Inr data)
      have "batch_loop create B texts idx s acc
              = batch_loop create B texts (idx + B) s1 (acc @ data)"
        using batch_loop_step [OF False, of create s acc] c Inr by simp
      moreover have "batch_loop create B (take ?m texts) idx s acc
              = batch_loop create B (take ?m texts) (idx + B) s1 (acc @ data)"
        using batch_loop_step [OF cond, of create s acc] c Inr same by simp
      ultimately show ?thesis using Suc [of "idx + B" s1 "acc @ data"] m by simp
    next
      case (Inl e)
      obtain a s2 where f: "embed_each create s1 ?batch acc = (a, s2)" by fastforce
      have "batch_loop create B texts idx s acc = batch_loop create B texts (idx + B) s2 a"
        using batch_loop_step [OF False, of create s acc] c Inl f by simp
      moreover have "batch_loop create B (take ?m texts) idx s acc
              = batch_loop create B (take ?m texts) (idx + B) s2 a"
        using batch_loop_step [OF cond, of create s acc] c Inl f same by simp
      ultimately show ?thesis using Suc [of "idx + B" s2 a] m by simp
    qed
  qed
qed

lemma batch_loop_length:
  assumes "0 < B"
    and "\<And>s b data s'. create s b = (Inr data, s') \<Longrightarrow> length data = length b"
  shows "length (fst (batch_loop create B texts 0 s [])) = length texts"
proof -
  have "\<exists>out. fst (batch_loop create B texts 0 s []) = [] @ out
           \<and> length out = length texts - 0 \<and> (\<forall>j<length out. (\<lambda>j v. True) (0 + j) (out ! j))"
    using assms by (intro batch_loop_idx) auto
  then show ?thesis by auto
qed

lemma batch_loop_nth:
  assumes "0 < B"
    and "\<And>s b data s'. create s b = (Inr data, s') \<Longrightarrow> length data = length b"
    and "i < length texts"
  shows "fst (batch_loop create B texts 0 s []) ! i
           = (case fst (batch_request create B texts s i) of
                Inr data \<Rightarrow> data ! (i mod B)
              | Inl e \<Rightarrow>
                  (case fst (item_request create B texts s i) of
                     Inr v \<Rightarrow> v | Inl e' \<Rightarrow> zero_vector))"
proof -
  define k where "k = i div B"
  define j where "j = i mod B"
  have i: "i = k * B + j" by (simp add: k_def j_def)
  have j: "j < B" using assms(1) by (simp add: j_def)
  have kB: "k * B < length texts" using i assms(3) by simp
  let ?batch = "take B (drop (k * B) texts)"
  have batch: "?batch = batch_of B texts i" by (simp add: batch_of_def k_def)
  have jb: "j < length ?batch" using i j assms(3) by simp
  have nth_b: "?batch ! j = texts ! i" using i jb kB by simp
  obtain ak sk where pre: "batch_loop create B (take (k * B) texts) 0 s [] = (ak, sk)"
    by fastforce
  have sk: "sk = state_before_batch create B texts s k"
    using pre by (simp add: state_before_batch_def)
  have "length (fst (batch_loop create B (take (k * B) texts) 0 s []))
          = length (take (k * B) texts)"
  proof (rule batch_loop_length)
    show "0 < B" by (rule assms(1))
  next
    fix s b data s'
    assume "create s b = (Inr data, s')"
    then show "length data = length b" by (rule assms(2))
  qed
  then have lak: "length ak = k * B"
    using pre kB by simp
  have whole: "batch_loop create B texts 0 s [] = batch_loop create B texts (k * B) sk ak"
    using batch_loop_passes [of create B texts 0 s "[]" k] pre by simp
  have cond: "\<not> (B = 0 \<or> length texts \<le> k * B)" using assms(1) kB by simp
  obtain r s1 where c: "create sk ?batch = (r, s1)" by fastforce
  have br: "batch_request create B texts s i = (r, s1)"
    using c sk batch by (simp add: batch_request_def k_def)
  show ?thesis
  proof (cases r)
    case (Inr data)
    have ld: "length data = length ?batch" using assms(2) c Inr by blast
    have "batch_loop create B texts (k * B) sk ak
            = batch_loop create B texts (k * B + B) s1 (ak @ data)"
      using batch_loop_step [OF cond, of create sk ak] c Inr by simp
    also have "\<dots> = ((ak @ data) @ fst (batch_loop create B texts (k * B + B) s1 []),
                      snd (batch_loop create B texts (k * B + B) s1 []))"
      by (rule batch_loop_acc)
    finally have "fst (batch_loop create B texts 0 s []) ! i = data ! j"
      using whole lak i jb ld by (simp add: nth_append)
    then show ?thesis using br Inr by (simp add: j_def)
  next
    case (Inl e)
    let ?items = "fst (embed_each create s1 ?batch [])"
    let ?s2 = "snd (embed_each create s1 ?batch [])"
    have li: "length ?items = length ?batch"
      using embed_each_length [of create s1 ?batch "[]"] by simp
    have "batch_loop create B texts (k * B) sk ak
            = batch_loop create B texts (k * B + B) ?s2 (ak @ ?items)"
      using batch_loop_step [OF cond, of create sk ak] c Inl
        embed_each_acc [of create s1 ?batch ak] by simp
    also have "\<dots> = ((ak @ ?items) @ fst (batch_loop create B texts (k * B + B) ?s2 []),
                      snd (batch_loop create B texts (k * B + B) ?s2 []))"
      by (rule batch_loop_acc)
    finally have "fst (batch_loop create B texts 0 s []) ! i = ?items ! j"
      using whole lak i jb li by (simp add: nth_append)
    also have "\<dots> = (case fst (get_embedding create
                                   (snd (embed_each create s1 (take j ?batch) [])) (?batch ! j)) of
                          Inr v \<Rightarrow> v | Inl e' \<Rightarrow> zero_vector)"
      using jb by (rule embed_each_nth)
    also have "\<dots> = (case fst (item_request create B texts s i) of
                          Inr v \<Rightarrow> v | Inl e' \<Rightarrow> zero_vector)"
      using br nth_b batch by (simp add: item_request_def j_def)
    finally show ?thesis using br Inl by simp
  qed
qed

lemma get_embeddings_batch_run:
  assumes "0 < batch_size"
  shows "get_embeddings_batch create s texts batch_size
           = (Inr (fst (batch_loop create (nat batch_size) texts 0 s [])),
              snd (batch_loop create (nat batch_size) texts 0 s []))"
  using assms by (simp add: get_embeddings_batch_def split: prod.splits)

lemma run_reaches_batch:
  "batch_loop create B texts 0 s []
     = batch_loop create B texts (k * B) (state_before_batch create B texts s k)
         (fst (batch_loop create B (take (k * B) texts) 0 s []))"
  using batch_loop_passes [of create B texts 0 s "[]" k]
  by (simp add: state_before_batch_def split: prod.splits)

lemma replay_loop:
  assumes "0 < B" and "length out = length texts"
  shows "batch_loop replay_service B texts idx (drop idx out) acc = (acc @ drop idx out, [])"
proof (induction "length texts - idx" arbitrary: idx acc rule: less_induct)
  case less
  show ?case
  proof (cases "length texts \<le> idx")
    case True
    then show ?thesis using assms(2) by (simp add: batch_loop_stop)
  next
    case False
    let ?batch = "take B (drop idx texts)"
    let ?n = "length ?batch"
    have cond: "\<not> (B = 0 \<or> length texts \<le> idx)" using False assms(1) by simp
    have m: "length texts - (idx + B) < length texts - idx" using False assms(1) by arith
    have rest: "drop ?n (drop idx out) = drop (idx + B) out"
      using assms(2) False by (auto simp: min_def add.commute)
    have "batch_loop replay_service B texts idx (drop idx out) acc
            = batch_loop replay_service B texts (idx + B) (drop (idx + B) out)
                (acc @ take ?n (drop idx out))"
      using batch_loop_step [OF cond, of replay_service "drop idx out" acc] rest
      by (simp add: replay_service_def)
    also have "\<dots> = ((acc @ take ?n (drop idx out)) @ drop (idx + B) out, [])"
      using m by (rule less)
    also have "(acc @ take ?n (drop idx out)) @ drop (idx + B) out = acc @ drop idx out"
      using append_take_drop_id [of ?n "drop idx out"] rest by simp
    finally show ?thesis .
  qed
qed

lemma replay_run:
  assumes "0 < batch_size" and "length out = length texts"
  shows "get_embeddings_batch replay_service out texts batch_size = (Inr out, [])"
proof -
  have "0 < nat batch_size" using assms(1) by simp
  then have "batch_loop replay_service (nat batch_size) texts 0 (drop 0 out) []
               = ([] @ drop 0 out, [])"
    using assms(2) by (rule replay_loop)
  then show ?thesis using get_embeddings_batch_run [OF assms(1), of replay_service out texts]
    by simp
qed

text \<open>
  C1. For every list of texts and every positive batch size, \<^verbatim>\<open>get_embeddings_batch\<close>
  returns (it does not raise and the loop ends) a list with exactly one vector per text,
  in the order of the texts, whichever batch requests and single requests raise, in
  whatever state the service is. The vector at position \<open>i\<close> is the one the run got for
  the \<open>i\<close>-th text: the vector at the text's place in the response to its batch when that
  request succeeded, else the first vector of the response to the single request for the
  text when that succeeded, else the zero vector. So it is a vector the service gave for
  that text (\<open>emb t v\<close> reads "the service gave \<open>v\<close> for \<open>t\<close>") unless both requests
  raised. The service is held to its contract only where a request succeeds: a response
  has one embedding per input text, in input order.
\<close>

theorem get_embeddings_batch_total_ordered:
  assumes "0 < batch_size"
    and "\<And>s b data s'. create s b = (Inr data, s') \<Longrightarrow> list_all2 emb b data"
  shows "\<exists>out s'. get_embeddings_batch create s texts batch_size = (Inr out, s')
           \<and> length out = length texts
           \<and> list_all2 (\<lambda>t v. emb t v \<or> v = zero_vector) texts out
           \<and> (\<forall>i<length texts.
                 out ! i
                   = (case fst (batch_request create (nat batch_size) texts s i) of
                        Inr data \<Rightarrow> data ! (i mod nat batch_size)
                      | Inl e \<Rightarrow>
                          (case fst (item_request create (nat batch_size) texts s i) of
                             Inr v \<Rightarrow> v | Inl e' \<Rightarrow> zero_vector)))
           \<and> (\<forall>i<length texts.
                 emb (texts ! i) (out ! i)
                 \<or> (isl (fst (batch_request create (nat batch_size) texts s i))
                    \<and> isl (fst (item_request create (nat batch_size) texts s i))
                    \<and> out ! i = zero_vector))"
proof -
  let ?B = "nat batch_size"
  let ?out = "fst (batch_loop create ?B texts 0 s [])"
  have B: "0 < ?B" using assms(1) by simp
  have len_contract: "length data = length b" if "create s b = (Inr data, s')" for s b data s'
    using list_all2_lengthD [OF assms(2) [OF that]] by simp
  have run: "get_embeddings_batch create s texts batch_size
               = (Inr ?out, snd (batch_loop create ?B texts 0 s []))"
    using assms(1) by (rule get_embeddings_batch_run)
  have len: "length ?out = length texts"
    using B len_contract by (rule batch_loop_length)
  have nth: "?out ! i
               = (case fst (batch_request create ?B texts s i) of
                    Inr data \<Rightarrow> data ! (i mod ?B)
                  | Inl e \<Rightarrow>
                      (case fst (item_request create ?B texts s i) of
                         Inr v \<Rightarrow> v | Inl e' \<Rightarrow> zero_vector))"
    if "i < length texts" for i
    using B len_contract that by (rule batch_loop_nth)
  have served: "emb (texts ! i) (?out ! i)
                \<or> (isl (fst (batch_request create ?B texts s i))
                   \<and> isl (fst (item_request create ?B texts s i))
                   \<and> ?out ! i = zero_vector)"
    if i: "i < length texts" for i
  proof (cases "fst (batch_request create ?B texts s i)")
    case (Inr data)
    define k where "k = i div ?B"
    have ik: "i = k * ?B + i mod ?B" by (simp add: k_def)
    have kB: "k * ?B < length texts" "i mod ?B < ?B" using ik i B by simp_all
    obtain s1 where "batch_request create ?B texts s i = (Inr data, s1)"
      using Inr by (cases "batch_request create ?B texts s i") simp
    then have l: "list_all2 emb (batch_of ?B texts i) data"
      using assms(2) by (simp add: batch_request_def)
    have jb: "i mod ?B < length (batch_of ?B texts i)"
      using ik kB i by (simp add: batch_of_def k_def [symmetric])
    have "batch_of ?B texts i ! (i mod ?B) = texts ! i"
      using ik kB jb by (simp add: batch_of_def k_def [symmetric])
    moreover have "emb (batch_of ?B texts i ! (i mod ?B)) (data ! (i mod ?B))"
      using l jb by (rule list_all2_nthD)
    ultimately show ?thesis using nth [OF i] Inr by simp
  next
    case (Inl e)
    show ?thesis
    proof (cases "fst (item_request create ?B texts s i)")
      case (Inr v)
      then obtain s2 where g: "item_request create ?B texts s i = (Inr v, s2)"
        by (cases "item_request create ?B texts s i") simp
      obtain rest s0 where "create s0 [texts ! i] = (Inr (v # rest), s2)"
        using get_embedding_Inr [OF g [unfolded item_request_def]] by blast
      then have "list_all2 emb [texts ! i] (v # rest)" by (rule assms(2))
      then show ?thesis using nth [OF i] Inl Inr by simp
    next
      case (Inl e')
      then show ?thesis using nth [OF i] \<open>fst (batch_request create ?B texts s i) = Inl e\<close>
        by simp
    qed
  qed
  have "list_all2 (\<lambda>t v. emb t v \<or> v = zero_vector) texts ?out"
    using len served by (auto simp: list_all2_conv_all_nth)
  with run len nth served show ?thesis by blast
qed

theorem get_embeddings_batch_total_ordered_witness:
  "(0::int) < 2
   \<and> get_embeddings_batch mock_service 0 [''a'', ''bb'', ''bad'', ''cccc''] 2
       = (Inr [[1], [2], zero_vector, [4]], 4)
   \<and> (\<exists>out s'. get_embeddings_batch mock_service 0 [''a'', ''bb'', ''bad'', ''cccc''] 2
                    = (Inr out, s')
          \<and> length out = length [''a'', ''bb'', ''bad'', ''cccc'']
          \<and> list_all2 (\<lambda>t v. v = [real (length t)] \<or> v = zero_vector)
                [''a'', ''bb'', ''bad'', ''cccc''] out
          \<and> (\<forall>i<length [''a'', ''bb'', ''bad'', ''cccc''].
                out ! i
                  = (case fst (batch_request mock_service (nat 2)
                                 [''a'', ''bb'', ''bad'', ''cccc''] 0 i) of
                       Inr data \<Rightarrow> data ! (i mod nat 2)
                     | Inl e \<Rightarrow>
                         (case fst (item_request mock_service (nat 2)
                                      [''a'', ''bb'', ''bad'', ''cccc''] 0 i) of
                            Inr v \<Rightarrow> v | Inl e' \<Rightarrow> zero_vector)))
          \<and> (\<forall>i<length [''a'', ''bb'', ''bad'', ''cccc''].
                out ! i = [real (length ([''a'', ''bb'', ''bad'', ''cccc''] ! i))]
                \<or> (isl (fst (batch_request mock_service (nat 2)
                                [''a'', ''bb'', ''bad'', ''cccc''] 0 i))
                   \<and> isl (fst (item_request mock_service (nat 2)
                                  [''a'', ''bb'', ''bad'', ''cccc''] 0 i))
                   \<and> out ! i = zero_vector)))"
proof (intro conjI)
  show "(0::int) < 2" by simp
  show "get_embeddings_batch mock_service 0 [''a'', ''bb'', ''bad'', ''cccc''] 2
          = (Inr [[1], [2], zero_vector, [4]], 4)"
    by (simp add: get_embeddings_batch_def batch_loop.simps mock_service_def get_embedding_def)
  show "\<exists>out s'. get_embeddings_batch mock_service 0 [''a'', ''bb'', ''bad'', ''cccc''] 2
                    = (Inr out, s')
          \<and> length out = length [''a'', ''bb'', ''bad'', ''cccc'']
          \<and> list_all2 (\<lambda>t v. v = [real (length t)] \<or> v = zero_vector)
                [''a'', ''bb'', ''bad'', ''cccc''] out
          \<and> (\<forall>i<length [''a'', ''bb'', ''bad'', ''cccc''].
                out ! i
                  = (case fst (batch_request mock_service (nat 2)
                                 [''a'', ''bb'', ''bad'', ''cccc''] 0 i) of
                       Inr data \<Rightarrow> data ! (i mod nat 2)
                     | Inl e \<Rightarrow>
                         (case fst (item_request mock_service (nat 2)
                                      [''a'', ''bb'', ''bad'', ''cccc''] 0 i) of
                            Inr v \<Rightarrow> v | Inl e' \<Rightarrow> zero_vector)))
          \<and> (\<forall>i<length [''a'', ''bb'', ''bad'', ''cccc''].
                out ! i = [real (length ([''a'', ''bb'', ''bad'', ''cccc''] ! i))]
                \<or> (isl (fst (batch_request mock_service (nat 2)
                                [''a'', ''bb'', ''bad'', ''cccc''] 0 i))
                   \<and> isl (fst (item_request mock_service (nat 2)
                                  [''a'', ''bb'', ''bad'', ''cccc''] 0 i))
                   \<and> out ! i = zero_vector))"
  proof (rule get_embeddings_batch_total_ordered)
    show "(0::int) < 2" by simp
  next
    fix s b data s'
    assume "mock_service s b = (Inr data, s')"
    then show "list_all2 (\<lambda>t v. v = [real (length t)]) b data"
      by (auto simp: mock_service_def list_all2_map2 list_all2_same split: if_splits)
  qed
qed

text \<open>
  C6 (amended). When, in a run, the request for the batch that holds the \<open>i\<close>-th text
  raises and the single request for that text, sent in the fallback, raises as well (an
  empty response counts as raising), the vector at position \<open>i\<close> of the result is the
  zero vector of 1536 components. The result is the plain list of vectors, one per text,
  with no status per item: the same list is the result of a run in which no request
  raises, with a service that never raises and answers with these vectors, so the result
  does not tell the caller that a request failed.
\<close>

theorem failed_item_gets_zero_vector:
  assumes "0 < batch_size"
    and "\<And>s b data s'. create s b = (Inr data, s') \<Longrightarrow> length data = length b"
    and "i < length texts"
    and "isl (fst (batch_request create (nat batch_size) texts s i))"
    and "isl (fst (item_request create (nat batch_size) texts s i))"
  shows "(\<exists>out s'. get_embeddings_batch create s texts batch_size = (Inr out, s')
            \<and> length out = length texts
            \<and> out ! i = zero_vector
            \<and> get_embeddings_batch replay_service out texts batch_size = (Inr out, []))
       \<and> (\<forall>vectors b. fst (replay_service vectors b) = Inr (take (length b) vectors))"
proof -
  let ?B = "nat batch_size"
  let ?out = "fst (batch_loop create ?B texts 0 s [])"
  have B: "0 < ?B" using assms(1) by simp
  have "?out ! i
          = (case fst (batch_request create ?B texts s i) of
               Inr data \<Rightarrow> data ! (i mod ?B)
             | Inl e \<Rightarrow>
                 (case fst (item_request create ?B texts s i) of
                    Inr v \<Rightarrow> v | Inl e' \<Rightarrow> zero_vector))"
    using B assms(2,3) by (rule batch_loop_nth)
  then have z: "?out ! i = zero_vector"
    using assms(4,5) by (auto simp: isl_def)
  have l: "length ?out = length texts"
    using B assms(2) by (rule batch_loop_length)
  have r: "get_embeddings_batch replay_service ?out texts batch_size = (Inr ?out, [])"
    using assms(1) l by (rule replay_run)
  have 1: "\<exists>out s'. get_embeddings_batch create s texts batch_size = (Inr out, s')
            \<and> length out = length texts \<and> out ! i = zero_vector
            \<and> get_embeddings_batch replay_service out texts batch_size = (Inr out, [])"
    using get_embeddings_batch_run [OF assms(1), of create s texts] l z r by blast
  have 2: "\<forall>vectors b. fst (replay_service vectors b) = Inr (take (length b) vectors)"
    by (simp add: replay_service_def)
  from 1 2 show ?thesis by (intro conjI)
qed

theorem failed_item_gets_zero_vector_witness:
  "(0::int) < 2 \<and> (0::nat) < length [''a'', ''bb'']
   \<and> batch_request flaky_service 2 [''a'', ''bb''] 0 0 = (Inl (ServiceError ''unavailable''), 1)
   \<and> item_request flaky_service 2 [''a'', ''bb''] 0 0 = (Inl (ServiceError ''unavailable''), 2)
   \<and> item_request flaky_service 2 [''a'', ''bb''] 0 (Suc 0) = (Inr [2], 3)
   \<and> get_embeddings_batch flaky_service 0 [''a'', ''bb''] 2 = (Inr [zero_vector, [2]], 3)
   \<and> (\<exists>out s'. get_embeddings_batch flaky_service 0 [''a'', ''bb''] 2 = (Inr out, s')
          \<and> length out = length [''a'', ''bb'']
          \<and> out ! 0 = zero_vector
          \<and> get_embeddings_batch replay_service out [''a'', ''bb''] 2 = (Inr out, []))"
proof -
  have pos: "(0::int) < 2" by simp
  have contract: "length data = length b" if "flaky_service s b = (Inr data, s')"
    for s b data s'
    using that by (auto simp: flaky_service_def split: if_splits)
  have i: "(0::nat) < length [''a'', ''bb'']" by simp
  have st: "state_before_batch flaky_service 2 [''a'', ''bb''] 0 0 = 0"
    by (simp add: state_before_batch_def batch_loop_stop)
  have b0: "batch_request flaky_service 2 [''a'', ''bb''] 0 0
              = (Inl (ServiceError ''unavailable''), 1)"
    by (simp add: batch_request_def st batch_of_def flaky_service_def)
  have b1: "batch_request flaky_service 2 [''a'', ''bb''] 0 (Suc 0)
              = (Inl (ServiceError ''unavailable''), 1)"
    by (simp add: batch_request_def st batch_of_def flaky_service_def)
  have i0: "item_request flaky_service 2 [''a'', ''bb''] 0 0
              = (Inl (ServiceError ''unavailable''), 2)"
    by (simp add: item_request_def b0 batch_of_def get_embedding_def flaky_service_def)
  have i1: "item_request flaky_service 2 [''a'', ''bb''] 0 (Suc 0) = (Inr [2], 3)"
    by (simp add: item_request_def b1 batch_of_def get_embedding_def flaky_service_def)
  have batch: "isl (fst (batch_request flaky_service (nat 2) [''a'', ''bb''] 0 0))"
    by (simp add: b0)
  have single: "isl (fst (item_request flaky_service (nat 2) [''a'', ''bb''] 0 0))"
    by (simp add: i0)
  have run: "get_embeddings_batch flaky_service 0 [''a'', ''bb''] 2 = (Inr [zero_vector, [2]], 3)"
    by (simp add: get_embeddings_batch_def batch_loop.simps flaky_service_def get_embedding_def)
  have "(\<exists>out s'. get_embeddings_batch flaky_service 0 [''a'', ''bb''] 2 = (Inr out, s')
            \<and> length out = length [''a'', ''bb'']
            \<and> out ! 0 = zero_vector
            \<and> get_embeddings_batch replay_service out [''a'', ''bb''] 2 = (Inr out, []))
       \<and> (\<forall>vectors b. fst (replay_service vectors b) = Inr (take (length b) vectors))"
    using pos contract i batch single by (rule failed_item_gets_zero_vector)
  then have "\<exists>out s'. get_embeddings_batch flaky_service 0 [''a'', ''bb''] 2 = (Inr out, s')
            \<and> length out = length [''a'', ''bb''] \<and> out ! 0 = zero_vector
            \<and> get_embeddings_batch replay_service out [''a'', ''bb''] 2 = (Inr out, [])"
    by (rule conjunct1)
  with pos i b0 i0 i1 run show ?thesis by (intro conjI)
qed

text \<open>
  C6 as stated fails: nothing in the result tells a substituted vector from one the
  service returned. A service that raises on every request and a service that answers
  with the zero vector lead to the same result for the same text.
\<close>

theorem zero_vector_failure_not_flagged:
  "isl (fst (failing_service () [''x'']))
   \<and> isl (fst (get_embedding failing_service () ''x''))
   \<and> get_embeddings_batch failing_service () [''x''] 100 = (Inr [zero_vector], ())
   \<and> get_embeddings_batch zero_service () [''x''] 100 = (Inr [zero_vector], ())"
  by (simp add: get_embeddings_batch_def batch_loop.simps failing_service_def
        zero_service_def get_embedding_def)
section \<open>Properties of generator.py\<close>

lemma chunk_text_Cons:
  "chunk_text (choice # others) = (case choice of Some (Some content) \<Rightarrow> content | _ \<Rightarrow> [])"
  by (simp add: chunk_text_def split: option.splits)

lemma stream_fragments_concat:
  "\<forall>chunk\<in>set response. chunk \<noteq> [] \<Longrightarrow>
     snd (stream_fragments response) = None
     \<and> concat (fst (stream_fragments response)) = concat (map chunk_text response)"
proof (induction response)
  case Nil
  then show ?case by simp
next
  case (Cons chunk response)
  then obtain choice others where c: "chunk = choice # others" by (cases chunk) auto
  obtain fragments e where f: "stream_fragments response = (fragments, e)" by fastforce
  have ih: "e = None" "concat fragments = concat (map chunk_text response)"
    using Cons f by simp_all
  show ?case
    using c f ih by (auto simp: chunk_text_Cons split: option.splits)
qed

lemma code_fragments_Code: "code_fragments (map Code fragments @ events) = fragments @ code_fragments events"
  by (induction fragments) simp_all

text \<open>
  C9. For a fixed context and grounded prompt and a deterministic generation service,
  the \<^verbatim>\<open>code\<close> fragments of the streaming path, concatenated in order, are the text
  the synchronous path returns. Both paths send the same prompt. The service is held to
  what makes it one service in two modes: its whole response is well formed (a first
  choice, a usage entry), its stream ends without an exception, every chunk has a
  choice, and the contents of the chunks spell the content of the whole response. The
  chunks without content that the generator skips carry no text.
\<close>

theorem streamed_code_equals_generated_code:
  assumes "complete svc (generation_prompt context_text strict_prompt) = Inr response"
    and "choices response = code # others"
    and "usage response = Some u"
    and "stream svc (generation_prompt context_text strict_prompt) = Inr (chunks, None)"
    and "\<forall>chunk\<in>set chunks. chunk \<noteq> []"
    and "concat (map chunk_text chunks) = code"
  shows "generate_code svc context_text strict_prompt = Inr code
       \<and> concat (code_fragments (stream_code_events svc context_text strict_prompt)) = code"
proof -
  have sync: "generate_code svc context_text strict_prompt = Inr code"
    using assms(1,2,3) by (simp add: generate_code_def)
  obtain fragments where f: "stream_fragments chunks = (fragments, None)"
    "concat fragments = code"
    using stream_fragments_concat [OF assms(5)] assms(6)
    by (cases "stream_fragments chunks") auto
  have "generate_code_stream svc context_text strict_prompt = (fragments, None)"
    using assms(4) f(1) by (simp add: generate_code_stream_def)
  then have "code_fragments (stream_code_events svc context_text strict_prompt) = fragments"
    using code_fragments_Code [of fragments "[Done ''Code generation completed!'']"]
    by (simp add: stream_code_events_def)
  with sync f(2) show ?thesis by simp
qed

theorem streamed_code_equals_generated_code_witness:
  "generate_code (stub_service [''def f():'', '' return 1'']) ''ctx'' ''prompt''
     = Inr ''def f(): return 1''
   \<and> stream_code_events (stub_service [''def f():'', '' return 1'']) ''ctx'' ''prompt''
     = [Status ''Generating code with GPT-4...'', Code ''def f():'', Code '' return 1'',
        Done ''Code generation completed!'']
   \<and> concat (code_fragments
        (stream_code_events (stub_service [''def f():'', '' return 1'']) ''ctx'' ''prompt''))
     = ''def f(): return 1''"
proof -
  let ?svc = "stub_service [''def f():'', '' return 1'']"
  have 1: "complete ?svc (generation_prompt ''ctx'' ''prompt'')
             = Inr \<lparr> choices = [''def f(): return 1''], usage = Some (0, 0, 0) \<rparr>"
    by (simp add: stub_service_def)
  have 2: "choices \<lparr> choices = [''def f(): return 1''], usage = Some (0, 0, 0) \<rparr>
             = ''def f(): return 1'' # []"
    by simp
  have 3: "usage \<lparr> choices = [''def f(): return 1''], usage = Some (0, 0, 0) \<rparr> = Some (0, 0, 0)"
    by simp
  have 4: "stream ?svc (generation_prompt ''ctx'' ''prompt'')
             = Inr ([[Some None], [Some (Some ''def f():'')], [Some (Some '' return 1'')],
                     [Some None]], None)"
    by (simp add: stub_service_def)
  have 5: "\<forall>chunk\<in>set [[Some None], [Some (Some ''def f():'')], [Some (Some '' return 1'')],
                           [Some None :: string option option]]. chunk \<noteq> []"
    by simp
  have 6: "concat (map chunk_text [[Some None], [Some (Some ''def f():'')],
                                   [Some (Some '' return 1'')], [Some None]])
             = ''def f(): return 1''"
    by (simp add: chunk_text_Cons)
  have ev: "stream_code_events ?svc ''ctx'' ''prompt''
     = [Status ''Generating code with GPT-4...'', Code ''def f():'', Code '' return 1'',
        Done ''Code generation completed!'']"
    by (simp add: stream_code_events_def generate_code_stream_def stub_service_def)
  show ?thesis
    using streamed_code_equals_generated_code [OF 1 2 3 4 5 6] ev by simp
qed
section \<open>Properties of qdrant\_utils.py\<close>

text \<open>
  C5. For every query embedding and every \<open>top_k\<close>, searching a collection that the
  store does not have returns the empty list: the result is a value, not an exception,
  and the search request is not sent (the claim holds for every ranking, also one that
  would raise).
\<close>

theorem search_missing_collection:
  "st collection_name = None \<Longrightarrow>
     search_documents_with_metadata rank st collection_name query_embedding top_k = Inr []"
  by (simp add: search_documents_with_metadata_def collection_exists_def
        client_get_collection_def)

theorem search_missing_collection_witness:
  "Map.empty ''reference_docs'' = (None :: collection option)
   \<and> search_documents_with_metadata (\<lambda>c q k. Inl (ServiceError ''unreachable''))
         Map.empty ''reference_docs'' [1 / 2] 3 = Inr []"
  using search_missing_collection
          [of Map.empty "''reference_docs''" "\<lambda>c q k. Inl (ServiceError ''unreachable'')"
              "[1 / 2]" 3]
  by simp

text \<open>
  C10. For every store, collection, query embedding and \<open>top_k\<close>, \<^verbatim>\<open>search_documents\<close>
  returns the \<^verbatim>\<open>text\<close> entries of the results of \<^verbatim>\<open>search_documents_with_metadata\<close> for
  the same arguments, in the same order; where the latter raises, so does the former,
  with the same exception.
\<close>

theorem search_documents_projection:
  "search_documents rank st collection_name query_embedding top_k
     = map_sum id (map result_text)
         (search_documents_with_metadata rank st collection_name query_embedding top_k)"
  by (simp add: search_documents_def split: sum.splits)

subsection \<open>What an upload leaves in the store\<close>

lemma make_points_Inr:
  "make_points objs embs indices = Inr pts \<Longrightarrow> pts = map (make_point objs embs) indices"
  by (induction indices arbitrary: pts) (auto split: if_splits sum.splits)

lemma map_of_indexed:
  "map_of (map (\<lambda>i. (i, f i)) xs) i = (if i \<in> set xs then Some (f i) else None)"
  by (induction xs) auto

lemma client_upsert_stored:
  assumes "client_upsert st name (map (make_point objs embs) indices) = (Inr (), st')"
  shows "stored st' name i
           = (if i \<in> set indices then Some (record_of objs embs i) else stored st name i)"
proof -
  obtain c where c: "st name = Some c"
    using assms by (cases "st name") (auto simp: client_upsert_def)
  have m: "map (\<lambda>p. (point_id p, point_vector p, point_payload p))
             (rev (map (make_point objs embs) indices))
           = map (\<lambda>i. (i, record_of objs embs i)) (rev indices)"
    by (simp add: rev_map record_of_def make_point_def)
  have "st' = st(name \<mapsto> c\<lparr>points := points c
                 ++ map_of (map (\<lambda>i. (i, record_of objs embs i)) (rev indices))\<rparr>)"
    using assms c unfolding client_upsert_def m [symmetric]
    by (auto split: if_splits)
  then show ?thesis
    using c by (simp add: stored_def map_add_def map_of_indexed)
qed

lemma upload_batches_stored:
  assumes "upload_batches st name objs embs [k..<t] = (Inr (), st')"
    and "t = (length objs + 99) div 100"
  shows "stored st' name i
           = (if k * 100 \<le> i \<and> i < length objs \<and> k < t then Some (record_of objs embs i)
              else stored st name i)"
  using assms
proof (induction "t - k" arbitrary: k st)
  case 0
  then show ?case by simp
next
  case (Suc d)
  then have kt: "k < t" by simp
  let ?a = "k * 100"
  let ?b = "min ((k + 1) * 100) (length objs)"
  have up: "[k..<t] = k # [Suc k..<t]" using kt by (simp add: upt_rec)
  obtain pts where pts: "make_points objs embs [?a..<?b] = Inr pts"
    using Suc.prems(1) up by (cases "make_points objs embs [?a..<?b]") (auto simp: Let_def)
  then have pts_eq: "pts = map (make_point objs embs) [?a..<?b]" by (rule make_points_Inr)
  obtain st1 where st1: "client_upsert st name pts = (Inr (), st1)"
    "upload_batches st1 name objs embs [Suc k..<t] = (Inr (), st')"
    using Suc.prems(1) up pts
    by (cases "client_upsert st name pts") (auto simp: Let_def split: sum.splits)
  have s1: "stored st1 name i
              = (if i \<in> set [?a..<?b] then Some (record_of objs embs i) else stored st name i)"
    using st1(1) unfolding pts_eq by (rule client_upsert_stored)
  have ih: "stored st' name i
              = (if Suc k * 100 \<le> i \<and> i < length objs \<and> Suc k < t
                 then Some (record_of objs embs i) else stored st1 name i)"
    using Suc.hyps(2) kt by (intro Suc.hyps(1) [OF _ st1(2) Suc.prems(2)]) simp
  have t: "i < length objs \<Longrightarrow> Suc k * 100 \<le> i \<Longrightarrow> Suc k < t"
    using Suc.prems(2) by (simp add: less_eq_div_iff_mult_less_eq)
  show ?case
    using ih s1 kt t by (auto simp: min_def split: if_splits)
qed

lemma upload_documents_with_metadata_stored:
  assumes "upload_documents_with_metadata st name objs embs = (Inr (), st')"
  shows "stored st' name i
           = (if i < length objs then Some (record_of objs embs i) else stored st name i)"
proof -
  let ?t = "(length objs + 99) div 100"
  have "upload_batches st name objs embs [0..<?t] = (Inr (), st')"
    using assms by (simp add: upload_documents_with_metadata_def add.commute)
  then have "stored st' name i
               = (if 0 * 100 \<le> i \<and> i < length objs \<and> 0 < ?t
                  then Some (record_of objs embs i) else stored st name i)"
    by (rule upload_batches_stored) simp
  moreover have "i < length objs \<Longrightarrow> 0 < ?t" by simp
  ultimately show ?thesis by auto
qed

lemma create_collection_empty:
  assumes "create_collection st name dimension = (Inr (), st')"
  shows "stored st' name i = None"
  using assms
  by (auto simp: create_collection_def collection_exists_def client_get_collection_def
        client_delete_collection_def client_create_collection_def stored_def
      split: option.splits if_splits)

lemma first_call_run:
  "fst first_call = Inr ()
   \<and> stored (snd first_call) ''docs'' 0
       = Some ([1], [(''text'', PyStr ''A0.''), (''source'', PyStr ''a.md''),
                     (''chunk_index'', PyInt 0), (''length'', PyInt 3)])
   \<and> stored (snd first_call) ''docs'' 1
       = Some ([2], [(''text'', PyStr ''A1.''), (''source'', PyStr ''a.md''),
                     (''chunk_index'', PyInt 1), (''length'', PyInt 3)])"
  by code_simp

lemma second_call_run:
  "fst second_call = Inr ()
   \<and> stored (snd second_call) ''docs'' 0
       = Some ([3], [(''text'', PyStr ''B0.''), (''source'', PyStr ''b.md''),
                     (''chunk_index'', PyInt 0), (''length'', PyInt 3)])
   \<and> stored (snd second_call) ''docs'' 1
       = Some ([2], [(''text'', PyStr ''A1.''), (''source'', PyStr ''a.md''),
                     (''chunk_index'', PyInt 1), (''length'', PyInt 3)])"
  by code_simp
section \<open>Properties of upload\_docs\<close>

lemma upload_docs_success:
  assumes "upload_docs P T create files s st = (Inr (UploadSuccess n k), s', st')"
  shows "\<exists>objs embs. process_files P T create files s [] [] = (Inr (objs, embs), s')
           \<and> n = length objs
           \<and> stored st' COLLECTION_NAME i
               = (if i < n then Some (record_of objs embs i) else None)"
proof -
  have files: "files \<noteq> []" using assms by (auto simp: upload_docs_def)
  obtain r s1 where p: "process_files P T create files s [] [] = (r, s1)" by fastforce
  obtain objs embs where r: "r = Inr (objs, embs)"
    using assms files p by (cases r) (auto simp: upload_docs_def)
  have embs: "embs \<noteq> []"
    using assms files p r by (auto simp: upload_docs_def split: if_splits)
  obtain r1 st1 where c: "create_collection st COLLECTION_NAME (length (embs ! 0)) = (r1, st1)"
    by fastforce
  have r1: "r1 = Inr ()"
    using assms files p r embs c by (cases r1) (auto simp: upload_docs_def)
  obtain r2 st2 where u: "upload_documents_with_metadata st1 COLLECTION_NAME objs embs = (r2, st2)"
    by fastforce
  have r2: "r2 = Inr ()"
    using assms files p r embs c r1 u by (cases r2) (auto simp: upload_docs_def)
  have res: "s' = s1" "st' = st2" "n = length objs"
    using assms files p r embs c r1 u r2 by (auto simp: upload_docs_def)
  have "stored st2 COLLECTION_NAME i
          = (if i < length objs then Some (record_of objs embs i)
             else stored st1 COLLECTION_NAME i)"
    using u r2 by (intro upload_documents_with_metadata_stored) simp
  moreover have "stored st1 COLLECTION_NAME i = None"
    using c r1 by (intro create_collection_empty) simp
  ultimately show ?thesis using p r res by simp
qed

lemma first_upload_run:
  "fst first_upload = Inr (UploadSuccess 1 1)
   \<and> stored (snd (snd first_upload)) COLLECTION_NAME 0
       = Some ([25], [(''text'', PyStr ''Auth uses JWT with HS256.''), (''source'', PyStr ''a.md''),
                      (''chunk_index'', PyInt 0), (''length'', PyInt 25)])"
  by code_simp

lemma second_upload_run:
  "fst second_upload = Inr (UploadSuccess 1 1)
   \<and> stored (snd (snd second_upload)) COLLECTION_NAME 0
       = Some ([10], [(''text'', PyStr ''Use OAuth.''), (''source'', PyStr ''b.md''),
                      (''chunk_index'', PyInt 0), (''length'', PyInt 10)])
   \<and> stored (snd (snd second_upload)) COLLECTION_NAME 1 = None"
  by code_simp

text \<open>
  C2 (amended). Record ids are the positions \<open>0, 1, ...\<close> within one call. After two
  calls of \<^verbatim>\<open>upload_documents_with_metadata\<close> into the same collection, every id below
  the second call's number of records holds the second call's record; a record of the
  first call is still there exactly at the ids from that number on. A call of the
  endpoint \<^verbatim>\<open>upload_docs\<close> that succeeds creates the collection anew first: afterwards
  the collection holds the records of that call, at the ids below their number, and
  nothing else, whatever it held before.
\<close>

theorem sequential_uploads_overwrite:
  "(upload_documents_with_metadata st name objs1 embs1 = (Inr (), st1) \<longrightarrow>
    upload_documents_with_metadata st1 name objs2 embs2 = (Inr (), st2) \<longrightarrow>
      stored st2 name i
        = (if i < length objs2 then Some (record_of objs2 embs2 i)
           else if i < length objs1 then Some (record_of objs1 embs1 i)
           else stored st name i))
   \<and> (upload_docs P T create files s q = (Inr (UploadSuccess n k), s', q') \<longrightarrow>
        (\<exists>objs embs. process_files P T create files s [] [] = (Inr (objs, embs), s')
           \<and> n = length objs
           \<and> stored q' COLLECTION_NAME j
               = (if j < n then Some (record_of objs embs j) else None)))"
proof (intro conjI impI)
  assume 1: "upload_documents_with_metadata st name objs1 embs1 = (Inr (), st1)"
    and 2: "upload_documents_with_metadata st1 name objs2 embs2 = (Inr (), st2)"
  show "stored st2 name i
        = (if i < length objs2 then Some (record_of objs2 embs2 i)
           else if i < length objs1 then Some (record_of objs1 embs1 i)
           else stored st name i)"
    using upload_documents_with_metadata_stored [OF 1, of i]
      upload_documents_with_metadata_stored [OF 2, of i]
    by simp
next
  assume "upload_docs P T create files s q = (Inr (UploadSuccess n k), s', q')"
  then show "\<exists>objs embs. process_files P T create files s [] [] = (Inr (objs, embs), s')
           \<and> n = length objs
           \<and> stored q' COLLECTION_NAME j
               = (if j < n then Some (record_of objs embs j) else None)"
    by (rule upload_docs_success)
qed

theorem sequential_uploads_overwrite_witness:
  "first_call = (Inr (), snd first_call)
   \<and> second_call = (Inr (), snd second_call)
   \<and> stored (snd second_call) ''docs'' 0
       = Some (record_of [create_chunk_with_metadata ''B0.'' ''b.md'' 0 None] [[3]] 0)
   \<and> stored (snd second_call) ''docs'' 1
       = Some (record_of [create_chunk_with_metadata ''A0.'' ''a.md'' 0 None,
                          create_chunk_with_metadata ''A1.'' ''a.md'' 1 None] [[1], [2]] 1)
   \<and> second_upload = (Inr (UploadSuccess 1 1), fst (snd second_upload), snd (snd second_upload))
   \<and> stored (snd (snd second_upload)) COLLECTION_NAME 1 = None"
proof -
  let ?objs1 = "[create_chunk_with_metadata ''A0.'' ''a.md'' 0 None,
                 create_chunk_with_metadata ''A1.'' ''a.md'' 1 None]"
  let ?objs2 = "[create_chunk_with_metadata ''B0.'' ''b.md'' 0 None]"
  let ?files = "[\<lparr> filename = ''b.md'', file_content = map of_char ''Use OAuth.'' \<rparr>]"
  have f1: "first_call = (Inr (), snd first_call)"
    using first_call_run by (simp add: prod_eq_iff)
  have f2: "second_call = (Inr (), snd second_call)"
    using second_call_run by (simp add: prod_eq_iff)
  have f3: "second_upload
              = (Inr (UploadSuccess 1 1), fst (snd second_upload), snd (snd second_upload))"
    using second_upload_run by (simp add: prod_eq_iff)
  have h1: "upload_documents_with_metadata one_collection ''docs'' ?objs1 [[1], [2]]
              = (Inr (), snd first_call)"
    using f1 by (simp only: first_call_def [symmetric])
  have h2: "upload_documents_with_metadata (snd first_call) ''docs'' ?objs2 [[3]]
              = (Inr (), snd second_call)"
    using f2 by (simp only: second_call_def [symmetric])
  have h3: "upload_docs plain_parsers ascii_tables mock_service ?files
              (fst (snd first_upload)) (snd (snd first_upload))
              = (Inr (UploadSuccess 1 1), fst (snd second_upload), snd (snd second_upload))"
    using f3 by (simp only: second_upload_def [symmetric])
  note thm0 = sequential_uploads_overwrite
      [where st = one_collection and name = "''docs''" and ?objs1.0 = ?objs1
         and ?embs1.0 = "[[1], [2]]" and ?st1.0 = "snd first_call" and ?objs2.0 = ?objs2
         and ?embs2.0 = "[[3]]" and ?st2.0 = "snd second_call"
         and P = plain_parsers and T = ascii_tables and create = mock_service
         and files = ?files and s = "fst (snd first_upload)" and q = "snd (snd first_upload)"
         and n = 1 and k = 1 and s' = "fst (snd second_upload)"
         and q' = "snd (snd second_upload)"]
  have g0: "stored (snd second_call) ''docs'' 0 = Some (record_of ?objs2 [[3]] 0)"
    using thm0 [where i = 0 and j = 1] h1 h2 by simp
  have g1: "stored (snd second_call) ''docs'' 1 = Some (record_of ?objs1 [[1], [2]] 1)"
    using thm0 [where i = 1 and j = 1] h1 h2 by simp
  have g2: "stored (snd (snd second_upload)) COLLECTION_NAME 1 = None"
    using thm0 [where i = 0 and j = 1] h3 by auto
  from f1 f2 g0 g1 f3 g2 show ?thesis by (intro conjI)
qed

text \<open>
  C2 as stated fails. Into the same collection, a first call stores two records and a
  second call one: id 0 then holds the second call's record, and the first call's record
  with that id is gone. Through the endpoint, the first call stores the chunk of
  \<^verbatim>\<open>a.md\<close>; after the second call id 0 holds the chunk of \<^verbatim>\<open>b.md\<close>.
\<close>

theorem second_upload_replaces_first:
  "fst first_call = Inr ()
   \<and> stored (snd first_call) ''docs'' 0
       = Some ([1], [(''text'', PyStr ''A0.''), (''source'', PyStr ''a.md''),
                     (''chunk_index'', PyInt 0), (''length'', PyInt 3)])
   \<and> fst second_call = Inr ()
   \<and> stored (snd second_call) ''docs'' 0
       = Some ([3], [(''text'', PyStr ''B0.''), (''source'', PyStr ''b.md''),
                     (''chunk_index'', PyInt 0), (''length'', PyInt 3)])
   \<and> fst first_upload = Inr (UploadSuccess 1 1)
   \<and> stored (snd (snd first_upload)) COLLECTION_NAME 0
       = Some ([25], [(''text'', PyStr ''Auth uses JWT with HS256.''), (''source'', PyStr ''a.md''),
                      (''chunk_index'', PyInt 0), (''length'', PyInt 25)])
   \<and> fst second_upload = Inr (UploadSuccess 1 1)
   \<and> stored (snd (snd second_upload)) COLLECTION_NAME 0
       = Some ([10], [(''text'', PyStr ''Use OAuth.''), (''source'', PyStr ''b.md''),
                      (''chunk_index'', PyInt 0), (''length'', PyInt 10)])
   \<and> stored (snd (snd second_upload)) COLLECTION_NAME 1 = None"
  using first_call_run second_call_run first_upload_run second_upload_run
  by (intro conjI) simp_all

lemma process_files_skipped:
  assumes "\<forall>file\<in>set files. \<exists>raw_text page_texts.
             extract_text_with_pages P T (file_content file) (filename file)
               = Inr (raw_text, page_texts)
             \<and> (raw_text = [] \<or> page_chunks_of T page_texts = [])"
  shows "process_files P T create files s objs embs = (Inr (objs, embs), s)"
  using assms
proof (induction files)
  case Nil
  then show ?case by simp
next
  case (Cons f files)
  then obtain raw_text page_texts where
    "extract_text_with_pages P T (file_content f) (filename f) = Inr (raw_text, page_texts)"
    "raw_text = [] \<or> page_chunks_of T page_texts = []"
    by auto
  moreover have "process_files P T create files s objs embs = (Inr (objs, embs), s)"
    using Cons by simp
  ultimately show ?case by (auto simp: Let_def)
qed

text \<open>
  When the extraction returns for every file, with no text or with pages that give no
  chunks, the endpoint returns an error response and leaves the embedding service and
  the store untouched: for one or more files it is the response "No valid content found
  in uploaded files", for an empty list of files the response "No files provided".
\<close>

lemma upload_docs_no_valid_content:
  assumes "\<forall>file\<in>set files. \<exists>raw_text page_texts.
             extract_text_with_pages P T (file_content file) (filename file)
               = Inr (raw_text, page_texts)
             \<and> (raw_text = [] \<or> page_chunks_of T page_texts = [])"
  shows "upload_docs P T create files s st
           = (Inr (UploadError (if files = [] then ''No files provided''
                                else ''No valid content found in uploaded files'')), s, st)"
  using process_files_skipped [OF assms, of create s "[]" "[]"]
  by (simp add: upload_docs_def)


lemma upload_docs_files_without_content:
  "upload_docs plain_parsers ascii_tables mock_service files_without_content 0 Map.empty
     = (Inr (UploadError ''No valid content found in uploaded files''), 0, Map.empty)"
proof -
  have e1: "extract_text_with_pages plain_parsers ascii_tables [] ''empty.txt''
              = Inr ([], [(1, [])])"
    by code_simp
  have e2: "extract_text_with_pages plain_parsers ascii_tables (map of_char ''@@@ ###'')
              ''symbols.md'' = Inr (''@@@ ###'', [(1, ''@@@ ###'')])"
    by code_simp
  have c2: "page_chunks_of ascii_tables [(1, ''@@@ ###'')] = []"
    by code_simp
  have e3: "extract_text_with_pages plain_parsers ascii_tables [255] ''broken.pdf''
              = Inr ([], [])"
    by code_simp
  have e4: "extract_text_with_pages plain_parsers ascii_tables [137, 80, 78, 71] ''image.png''
              = Inr ([], [])"
    by code_simp
  have h: "\<forall>f\<in>set files_without_content. \<exists>raw_text page_texts.
             extract_text_with_pages plain_parsers ascii_tables (file_content f) (filename f)
               = Inr (raw_text, page_texts)
             \<and> (raw_text = [] \<or> page_chunks_of ascii_tables page_texts = [])"
    using e1 e2 c2 e3 e4 by (simp add: files_without_content_def)
  have n: "files_without_content \<noteq> []" by (simp add: files_without_content_def)
  show ?thesis
    using upload_docs_no_valid_content [OF h, of mock_service 0 Map.empty] n by simp
qed

text \<open>
  C7. The claim is that a run in which no file is processed successfully ends in the
  structured "no valid content" error. The code does not do that for a text or markdown
  file that is not valid UTF-8: \<^verbatim>\<open>extract_text_with_pages\<close> decodes it outside any
  \<^verbatim>\<open>try\<close>, \<^verbatim>\<open>upload_docs\<close> calls it outside any \<^verbatim>\<open>try\<close>, and the endpoint raises the
  \<^verbatim>\<open>UnicodeDecodeError\<close>. The same bytes uploaded as a PDF or a DOCX file, where the
  library's exception is caught, give the structured error.
\<close>

theorem upload_docs_undecodable_text_file:
  "upload_docs plain_parsers ascii_tables mock_service
     [\<lparr> filename = ''notes.txt'', file_content = [255] \<rparr>] 0 Map.empty
     = (Inl UnicodeDecodeError, 0, Map.empty)
   \<and> upload_docs plain_parsers ascii_tables mock_service
       [\<lparr> filename = ''notes.pdf'', file_content = [255] \<rparr>] 0 Map.empty
     = (Inr (UploadError ''No valid content found in uploaded files''), 0, Map.empty)
   \<and> upload_docs plain_parsers ascii_tables mock_service
       [\<lparr> filename = ''notes.docx'', file_content = [255] \<rparr>] 0 Map.empty
     = (Inr (UploadError ''No valid content found in uploaded files''), 0, Map.empty)"
proof -
  have t: "extract_text_with_pages plain_parsers ascii_tables [255] ''notes.txt''
             = Inl UnicodeDecodeError"
    by code_simp
  have p: "extract_text_with_pages plain_parsers ascii_tables [255] ''notes.pdf''
             = Inr ([], [])"
    by code_simp
  have d: "extract_text_with_pages plain_parsers ascii_tables [255] ''notes.docx''
             = Inr ([], [])"
    by code_simp
  show ?thesis
    using t p d by (simp add: upload_docs_def)
qed

end
